theory Spec2Isabelle
  imports Complex_Main "HOL-Library.AList" "HOL-Library.Sublist" "HOL-Library.Log_Nat"
    "HOL-Library.Char_ord" "HOL-Library.List_Lexorder"
begin

section \<open>Text\<close>

text \<open>
  A Python \<open>str\<close> is modelled as a \<open>string\<close>. The documents the program reads are
  taken to be ASCII text, with one exception: the en dash (U+2013), which the
  mark-band pattern names, is written as the three bytes of its UTF-8 form. The
  character classes below are therefore the ASCII parts of Python's \<open>\<^verbatim>\<open>\s\<close>\<close>,
  \<open>\<^verbatim>\<open>\d\<close>\<close>, \<open>str.isspace\<close>, \<open>str.isdigit\<close> and \<open>str.upper\<close>.
\<close>

definition is_space :: "char \<Rightarrow> bool" where
  "is_space c = (c \<in> set [CHR '' '', CHR 0x09, CHR 0x0A, CHR 0x0B, CHR 0x0C, CHR 0x0D,
                             CHR 0x1C, CHR 0x1D, CHR 0x1E, CHR 0x1F])"

definition is_digit :: "char \<Rightarrow> bool" where
  "is_digit c = (c \<in> set ''0123456789'')"

definition upper_char :: "char \<Rightarrow> char" where
  "upper_char c =
     (case map_of (zip ''abcdefghijklmnopqrstuvwxyz'' ''ABCDEFGHIJKLMNOPQRSTUVWXYZ'') c of
        None \<Rightarrow> c
      | Some u \<Rightarrow> u)"

definition upper :: "string \<Rightarrow> string" where
  "upper s = map upper_char s"

definition ieq :: "char \<Rightarrow> char \<Rightarrow> bool" where
  \<comment> \<open>equality of two characters under \<open>re.IGNORECASE\<close>\<close>
  "ieq a c = (upper_char a = upper_char c)"

definition strip :: "string \<Rightarrow> string" where
  \<comment> \<open>\<open>str.strip()\<close>\<close>
  "strip s = rev (dropWhile is_space (rev (dropWhile is_space s)))"

function collapse_space :: "string \<Rightarrow> string" where
  \<comment> \<open>\<open>re.sub(r"\<^verbatim>\<open>\s+\<close>", " ", s)\<close>\<close>
  "collapse_space [] = []"
| "collapse_space (c # cs) =
     (if is_space c then CHR '' '' # collapse_space (dropWhile is_space cs)
      else c # collapse_space cs)"
  by pat_completeness auto
termination
  by (relation "measure length") (auto simp: length_dropWhile_le less_Suc_eq_le)

definition normalize_space :: "string option \<Rightarrow> string" where
  \<comment> \<open>the argument is \<open>None\<close> or a string; \<open>value or ""\<close> maps \<open>None\<close> to the empty string\<close>
  "normalize_space v = strip (collapse_space (case v of None \<Rightarrow> [] | Some s \<Rightarrow> s))"

definition isdigit :: "string \<Rightarrow> bool" where
  \<comment> \<open>\<open>str.isdigit()\<close>: at least one character, all of them digits\<close>
  "isdigit s = (s \<noteq> [] \<and> list_all is_digit s)"

definition digit_val :: "char \<Rightarrow> int" where
  "digit_val c = int (of_char c) - 48"

definition int_of_digits :: "string \<Rightarrow> int" where
  \<comment> \<open>\<open>int(s)\<close> for a string of digits\<close>
  "int_of_digits s = foldl (\<lambda>n c. 10 * n + digit_val c) 0 s"

definition contains :: "string \<Rightarrow> string \<Rightarrow> bool" where
  \<comment> \<open>\<open>needle in haystack\<close>\<close>
  "contains needle haystack = list_ex (prefix needle) (suffixes haystack)"

fun split_on :: "char \<Rightarrow> string \<Rightarrow> string list" where
  \<comment> \<open>\<open>s.split(sep)\<close> for a separator of one character\<close>
  "split_on sep [] = [[]]"
| "split_on sep (c # cs) =
     (if c = sep then [] # split_on sep cs
      else (case split_on sep cs of [] \<Rightarrow> [[c]] | w # ws \<Rightarrow> (c # w) # ws))"

fun join :: "string \<Rightarrow> string list \<Rightarrow> string" where
  \<comment> \<open>\<open>sep.join(xs)\<close>\<close>
  "join sep [] = []"
| "join sep [x] = x"
| "join sep (x # y # ys) = x @ sep @ join sep (y # ys)"

section \<open>Regular expressions\<close>

text \<open>
  The patterns of the program use only concatenation, alternation, greedy repetition,
  character classes, capturing groups and \<open>$\<close>. The matcher below is the backtracking
  matcher of Python's \<open>re\<close> for this fragment: alternatives are tried left to right,
  a repetition takes as many iterations as it can before it gives one back, and the
  first way to match the whole pattern wins. The continuation \<open>k\<close> is the rest of
  the pattern; the groups captured so far are passed along.
\<close>

datatype regex =
    Sym "char \<Rightarrow> bool"
  | Eps
  | Eos
  | Seq regex regex
  | Alt regex regex
  | Star regex
  | Grp nat regex

type_synonym groups = "nat \<Rightarrow> string option"

type_synonym 'a cont = "string \<Rightarrow> groups \<Rightarrow> 'a option"

primrec star_match ::
  "(string \<Rightarrow> groups \<Rightarrow> 'a cont \<Rightarrow> 'a option) \<Rightarrow> 'b list \<Rightarrow> string \<Rightarrow> groups \<Rightarrow> 'a cont \<Rightarrow> 'a option"
where
  \<comment> \<open>the second argument bounds the number of iterations; each consumes a character\<close>
  "star_match f [] s g k = k s g"
| "star_match f (b # fuel) s g k =
     (case f s g (\<lambda>s' g'. if length s' < length s then star_match f fuel s' g' k else None) of
        Some x \<Rightarrow> Some x
      | None \<Rightarrow> k s g)"

primrec rmatch :: "regex \<Rightarrow> string \<Rightarrow> groups \<Rightarrow> 'a cont \<Rightarrow> 'a option" where
  "rmatch (Sym P) s g k = (case s of [] \<Rightarrow> None | c # cs \<Rightarrow> if P c then k cs g else None)"
| "rmatch Eps s g k = k s g"
| "rmatch Eos s g k = (if s = [] \<or> s = [CHR 0x0A] then k s g else None)"
| "rmatch (Seq r1 r2) s g k = rmatch r1 s g (\<lambda>s' g'. rmatch r2 s' g' k)"
| "rmatch (Alt r1 r2) s g k =
     (case rmatch r1 s g k of Some x \<Rightarrow> Some x | None \<Rightarrow> rmatch r2 s g k)"
| "rmatch (Star r) s g k = star_match (rmatch r) s s g k"
| "rmatch (Grp i r) s g k =
     rmatch r s g (\<lambda>s' g'. k s' (g'(i \<mapsto> take (length s - length s') s)))"

definition Plus :: "regex \<Rightarrow> regex" where
  "Plus r = Seq r (Star r)"

definition Opt :: "regex \<Rightarrow> regex" where
  "Opt r = Alt r Eps"

definition lit :: "string \<Rightarrow> regex" where
  \<comment> \<open>a literal, matched case-sensitively\<close>
  "lit s = foldr (\<lambda>c r. Seq (Sym ((=) c)) r) s Eps"

definition ilit :: "string \<Rightarrow> regex" where
  \<comment> \<open>a literal under \<open>re.IGNORECASE\<close>\<close>
  "ilit s = foldr (\<lambda>c r. Seq (Sym (ieq c)) r) s Eps"

definition ws :: regex where
  \<comment> \<open>\<open>\<^verbatim>\<open>\s*\<close>\<close>\<close>
  "ws = Star (Sym is_space)"

definition digits :: regex where
  \<comment> \<open>\<open>\<^verbatim>\<open>\d+\<close>\<close>\<close>
  "digits = Plus (Sym is_digit)"

record match =
  m_start :: nat
  m_end :: nat
  m_groups :: groups

definition match_here :: "regex \<Rightarrow> string \<Rightarrow> (string \<times> groups) option" where
  \<comment> \<open>a match starting at the head of \<open>s\<close>: the text left after it, and the groups\<close>
  "match_here r s = rmatch r s Map.empty (\<lambda>s' g. Some (s', g))"

fun search_from :: "regex \<Rightarrow> nat \<Rightarrow> string \<Rightarrow> match option" where
  \<comment> \<open>\<open>re.search\<close>: the leftmost match in \<open>s\<close>, which is the text from position \<open>p\<close> on\<close>
  "search_from r p s =
     (case match_here r s of
        Some (s', g) \<Rightarrow> Some \<lparr>m_start = p, m_end = p + (length s - length s'), m_groups = g\<rparr>
      | None \<Rightarrow> (case s of [] \<Rightarrow> None | c # cs \<Rightarrow> search_from r (Suc p) cs))"

definition search :: "regex \<Rightarrow> string \<Rightarrow> match option" where
  "search r s = search_from r 0 s"

definition group :: "match \<Rightarrow> nat \<Rightarrow> string" where
  \<comment> \<open>\<open>m.group(i)\<close> of a group that took part in the match\<close>
  "group m i = (case m_groups m i of None \<Rightarrow> [] | Some t \<Rightarrow> t)"

function finditer_from :: "regex \<Rightarrow> nat \<Rightarrow> string \<Rightarrow> match list" where
  \<comment> \<open>\<open>re.finditer\<close>: the matches from left to right, each search starting where the
      match before ended. After an empty match the scan moves on by one character (the
      patterns of the program begin with a literal and match no empty text).\<close>
  "finditer_from r p s =
     (case match_here r s of
        Some (s', g) \<Rightarrow>
          \<lparr>m_start = p, m_end = p + (length s - length s'), m_groups = g\<rparr> #
          (if length s' < length s then finditer_from r (p + (length s - length s')) s'
           else (case s of [] \<Rightarrow> [] | c # cs \<Rightarrow> finditer_from r (Suc p) cs))
      | None \<Rightarrow> (case s of [] \<Rightarrow> [] | c # cs \<Rightarrow> finditer_from r (Suc p) cs))"
  by pat_completeness auto
termination
  by (relation "measure (\<lambda>(r, p, s). length s)") auto

definition finditer :: "regex \<Rightarrow> string \<Rightarrow> match list" where
  "finditer r s = finditer_from r 0 s"

section \<open>The mark scheme\<close>

definition en_dash :: string where
  \<comment> \<open>U+2013 in UTF-8\<close>
  "en_dash = [CHR 0xE2, CHR 0x80, CHR 0x93]"

definition seqs :: "regex list \<Rightarrow> regex" where
  "seqs rs = foldr Seq rs Eps"

definition mark_pattern :: regex where
  \<comment> \<open>\<open>\<^verbatim>\<open>Q\.\s*(\d+)\s*[<U+2013>-]\s*Q\.\s*(\d+)\s*Carry\s*(ONE|TWO)\s*mark\s*Each\<close>\<close>, with
      \<open>re.IGNORECASE\<close>; the class in brackets holds the en dash and the hyphen\<close>
  "mark_pattern = seqs
     [ilit ''Q.'', ws, Grp 1 digits, ws, Alt (lit en_dash) (lit ''-''), ws,
      ilit ''Q.'', ws, Grp 2 digits, ws, ilit ''Carry'', ws,
      Grp 3 (Alt (ilit ''ONE'') (ilit ''TWO'')), ws, ilit ''mark'', ws, ilit ''Each'']"

definition findall3 :: "regex \<Rightarrow> string \<Rightarrow> (string \<times> string \<times> string) list" where
  \<comment> \<open>\<open>pattern.findall(text)\<close> for a pattern of three groups\<close>
  "findall3 r s = map (\<lambda>m. (group m 1, group m 2, group m 3)) (finditer r s)"

definition mark_word_to_value :: "string \<Rightarrow> real option" where
  "mark_word_to_value word =
     (let word = upper word in
      if word = ''ONE'' then Some 1 else if word = ''TWO'' then Some 2 else None)"

text \<open>
  A \<open>dict\<close> is an association list in insertion order with one pair for each key:
  \<open>AList.update\<close> replaces the value of a key that is present and adds a new key at
  the end, as an assignment \<open>marks[q_no] = v\<close> does. \<open>len(marks)\<close> is the length of
  the list.
\<close>

type_synonym mark_table = "(int \<times> real) list"

definition assign_range :: "mark_table \<Rightarrow> int \<Rightarrow> int \<Rightarrow> real \<Rightarrow> mark_table" where
  \<comment> \<open>\<open>for q_no in range(start_q, end_q + 1): marks[q_no] = mark_val\<close>\<close>
  "assign_range marks start_q end_q mark_val =
     foldl (\<lambda>m q_no. AList.update q_no mark_val m) marks [start_q..end_q]"

definition apply_declaration :: "mark_table \<Rightarrow> string \<times> string \<times> string \<Rightarrow> mark_table" where
  "apply_declaration marks d =
     (case d of (start_txt, end_txt, mark_word) \<Rightarrow>
        (let start_q = int_of_digits start_txt;
             end_q = int_of_digits end_txt
         in case mark_word_to_value mark_word of
              None \<Rightarrow> marks
            | Some mark_val \<Rightarrow> assign_range marks start_q end_q mark_val))"

definition page_text :: "string option \<Rightarrow> string" where
  \<comment> \<open>\<open>page.extract_text() or ""\<close>\<close>
  "page_text t = (case t of None \<Rightarrow> [] | Some s \<Rightarrow> s)"

definition scan_page :: "mark_table \<Rightarrow> string option \<Rightarrow> mark_table" where
  "scan_page marks page = foldl apply_declaration marks (findall3 mark_pattern (page_text page))"

definition fallback_value :: "int \<Rightarrow> real" where
  "fallback_value q_no = (if q_no \<le> 5 \<or> (11 \<le> q_no \<and> q_no \<le> 35) then 1 else 2)"

definition fill_missing :: "mark_table \<Rightarrow> int \<Rightarrow> mark_table" where
  "fill_missing marks q_no =
     (if map_of marks q_no \<noteq> None then marks
      else AList.update q_no (fallback_value q_no) marks)"

definition parse_mark_scheme :: "string option list \<Rightarrow> int \<Rightarrow> mark_table" where
  \<comment> \<open>the question paper is the list of its pages, each the text extracted from it\<close>
  "parse_mark_scheme pages total_questions =
     (let marks = foldl scan_page [] pages
      in if int (length marks) < total_questions
         then foldl fill_missing marks [1..total_questions]
         else marks)"

section \<open>The answer key\<close>

record AnswerKeyEntry =
  q_no :: int
  q_type :: string
  section' :: string
  key_raw :: string

text \<open>
  The key document as \<open>pdfplumber\<close> hands it over: a list of pages, each with the
  tables extracted from it (\<open>page.extract_tables() or []\<close>), a table a list of rows,
  a row a list of cells, a cell a string or \<open>None\<close>.
\<close>

type_synonym cell = "string option"
type_synonym row = "cell list"
type_synonym table = "row list"
type_synonym key_document = "table list list"

definition row_entry :: "row \<Rightarrow> AnswerKeyEntry option" where
  \<comment> \<open>the body of the loop over \<open>table[1:]\<close>; \<open>None\<close> where the row is skipped\<close>
  "row_entry row =
     (if length row < 4 then None
      else
        (let q_no_txt = normalize_space (row ! 0);
             q_type = normalize_space (row ! 1);
             sec = normalize_space (row ! 2);
             key_raw = normalize_space (row ! 3)
         in if \<not> isdigit q_no_txt then None
            else Some \<lparr>q_no = int_of_digits q_no_txt, q_type = upper q_type,
                        section' = sec, key_raw = key_raw\<rparr>))"

definition table_entries :: "table \<Rightarrow> AnswerKeyEntry list" where
  "table_entries table =
     (if length table < 2 then []
      else
        (let header = map normalize_space (table ! 0)
         in if length header < 4 \<or> \<not> contains ''Q. No.'' (header ! 0)
                 \<or> \<not> contains ''Q. Type'' (header ! 1)
            then []
            else List.map_filter row_entry (tl table)))"

definition collect_entries :: "key_document \<Rightarrow> AnswerKeyEntry list" where
  \<comment> \<open>the entries in the order the nested loops append them\<close>
  "collect_entries pdf = concat (map (\<lambda>page. concat (map table_entries page)) pdf)"

definition parse_answer_key :: "key_document \<Rightarrow> AnswerKeyEntry list" where
  \<comment> \<open>\<open>list.sort\<close> is stable, as \<open>sort_key\<close> is\<close>
  "parse_answer_key pdf = sort_key q_no (collect_entries pdf)"

text \<open>
  The data model asks that a question number is unique within the key document. On
  the document itself that reads: the rows of its tables whose first cell is a number
  carry pairwise different numbers.
\<close>

definition numbered :: "row \<Rightarrow> bool" where
  "numbered row = (row \<noteq> [] \<and> isdigit (normalize_space (row ! 0)))"

definition row_number :: "row \<Rightarrow> int" where
  "row_number row = int_of_digits (normalize_space (row ! 0))"

definition numbered_rows :: "key_document \<Rightarrow> int list" where
  "numbered_rows pdf = map row_number (filter numbered (concat (concat pdf)))"

definition valid_key_document :: "key_document \<Rightarrow> bool" where
  "valid_key_document pdf = distinct (numbered_rows pdf)"

section \<open>The response sheet\<close>

record 'f ResponseQuestion =
  question_id :: int
  rq_type :: string
  status :: string
  chosen_labels :: "string list"
  given_answer :: "'f option"  \<comment> \<open>a Python float, of the type \<open>'f\<close> that stands for it\<close>
  option_map :: "string \<rightharpoonup> string"

fun alts :: "regex list \<Rightarrow> regex" where
  \<comment> \<open>\<open>r1|r2|...|rn\<close>, tried from the left\<close>
  "alts [] = Eps"
| "alts [r] = r"
| "alts (r # rs) = Alt r (alts rs)"

definition start_pattern :: regex where
  \<comment> \<open>the anchor of one question, with \<open>re.IGNORECASE\<close>\<close>
  "start_pattern = seqs
     [ilit ''Question'', ws, ilit ''Type'', ws, ilit '':'', ws,
      Grp 1 (alts [ilit ''MCQ'', ilit ''MSQ'', ilit ''NAT'']), ws,
      ilit ''Question'', ws, ilit ''ID'', ws, ilit '':'', ws, Grp 2 digits, ws,
      ilit ''Status'', ws, ilit '':'', ws,
      Grp 3 (alts [ilit ''Not Attempted and Marked For Review'', ilit ''Marked For Review'',
                   ilit ''Not Answered'', ilit ''Answered''])]"

definition slice :: "string \<Rightarrow> nat \<Rightarrow> nat \<Rightarrow> string" where
  \<comment> \<open>\<open>s[i:j]\<close> for \<open>i\<close>, \<open>j\<close> that are not negative\<close>
  "slice s i j = drop i (take j s)"

definition spans_at :: "string \<Rightarrow> match list \<Rightarrow> nat \<Rightarrow> string \<times> string" where
  \<comment> \<open>\<open>(content_text, metadata_text)\<close> of the anchor \<open>starts[index]\<close>\<close>
  "spans_at flat_text starts index =
     (let start = starts ! index;
          next_start = (if index + 1 < length starts then m_start (starts ! (index + 1))
                        else length flat_text);
          prev_end = (if index > 0 then m_end (starts ! (index - 1)) else 0);
          metadata_text = slice flat_text (m_start start) next_start;
          content_text = slice flat_text prev_end (m_start start)
      in (content_text, metadata_text))"

definition segment_spans :: "string \<Rightarrow> (string \<times> string) list" where
  \<comment> \<open>the spans \<open>parse_response_sheet\<close> cuts out of the flattened text, one pair for
      each anchor, in the order of the anchors\<close>
  "segment_spans flat_text =
     (if \<not> contains ''Question Type'' flat_text then []
      else
        (let starts = finditer start_pattern flat_text
         in if starts = [] then []
            else map (spans_at flat_text starts) [0..<length starts]))"

section \<open>Scoring\<close>

record EvaluationRow =
  row_q_no :: int
  row_question_id :: int
  row_q_type :: string
  row_status :: string
  student_answer :: string
  correct_answer :: string
  marks :: real
  max_marks :: real

text \<open>
  Mark values (\<open>1.0\<close>, \<open>2.0\<close>, \<open>-(max_marks / 3.0)\<close>) are modelled as real numbers. The
  numbers the program reads from text, compares and prints (the ends of a NAT range,
  the given answer) stay Python floats: their type \<open>'f\<close> and the operations the program
  applies to them are parameters of the model.
\<close>

record 'f float_ops =
  float_of_str :: "string \<Rightarrow> 'f"  \<comment> \<open>\<open>float(s)\<close>\<close>
  float_1e_9 :: "'f"  \<comment> \<open>the literal \<open>1e-9\<close>\<close>
  float_sub :: "'f \<Rightarrow> 'f \<Rightarrow> 'f"  \<comment> \<open>\<open>x - y\<close>\<close>
  float_add :: "'f \<Rightarrow> 'f \<Rightarrow> 'f"  \<comment> \<open>\<open>x + y\<close>\<close>
  float_le :: "'f \<Rightarrow> 'f \<Rightarrow> bool"  \<comment> \<open>\<open>x <= y\<close>\<close>
  float_str :: "'f \<Rightarrow> string"  \<comment> \<open>\<open>str(x)\<close>\<close>

definition master_pattern :: regex where
  \<comment> \<open>\<open>\<^verbatim>\<open>([a-dA-D])\.png(?:\?|$)\<close>\<close>\<close>
  "master_pattern = seqs [Grp 1 (Sym (\<lambda>c. c \<in> set ''abcdABCD'')), lit ''.png'', Alt (lit ''?'') Eos]"

definition label_to_master_option :: "(string \<rightharpoonup> string) \<Rightarrow> string \<Rightarrow> string option" where
  "label_to_master_option option_map' label =
     (case option_map' label of
        None \<Rightarrow> None
      | Some url \<Rightarrow>
          (case search master_pattern url of
             None \<Rightarrow> None
           | Some m \<Rightarrow> Some (upper (group m 1))))"

definition number :: regex where
  \<comment> \<open>\<open>\<^verbatim>\<open>[-+]?\d+(?:\.\d+)?\<close>\<close>\<close>
  "number = seqs [Opt (Sym (\<lambda>c. c \<in> set ''-+'')), digits, Opt (Seq (lit ''.'') digits)]"

definition nat_range_pattern :: regex where
  \<comment> \<open>\<open>\<^verbatim>\<open>([-+]?\d+(?:\.\d+)?)\s*to\s*([-+]?\d+(?:\.\d+)?)\<close>\<close>, with \<open>re.IGNORECASE\<close>\<close>
  "nat_range_pattern = seqs [Grp 1 number, ws, ilit ''to'', ws, Grp 2 number]"

definition parse_nat_range :: "'f float_ops \<Rightarrow> string \<Rightarrow> 'f option \<times> 'f option" where
  "parse_nat_range ops key_raw' =
     (case search nat_range_pattern key_raw' of
        None \<Rightarrow> (None, None)
      | Some m \<Rightarrow>
          (Some (float_of_str ops (group m 1)), Some (float_of_str ops (group m 2))))"

definition truthy :: "string option \<Rightarrow> bool" where
  \<comment> \<open>\<open>if mapped:\<close> for an optional string: neither \<open>None\<close> nor empty\<close>
  "truthy v = (case v of None \<Rightarrow> False | Some t \<Rightarrow> t \<noteq> [])"

definition mapped_answers :: "'f ResponseQuestion \<Rightarrow> string set" where
  \<comment> \<open>the set comprehension of the MSQ branch\<close>
  "mapped_answers response =
     set (map the (filter truthy
       (map (label_to_master_option (option_map response)) (chosen_labels response))))"

definition correct_set :: "string \<Rightarrow> string set" where
  "correct_set key_raw' =
     set (map (\<lambda>item. upper (strip item)) (filter (\<lambda>item. strip item \<noteq> []) (split_on CHR 0x3B key_raw')))"

definition score_mcq :: "AnswerKeyEntry \<Rightarrow> 'f ResponseQuestion \<Rightarrow> real \<Rightarrow> string \<times> real" where
  \<comment> \<open>\<open>(student_answer, earned)\<close> after the MCQ branch\<close>
  "score_mcq key_entry response max_marks' =
     (case chosen_labels response of
        [] \<Rightarrow> (''--'', 0)
      | label # _ \<Rightarrow>
          (let mapped = label_to_master_option (option_map response) label
           in if truthy mapped
              then (the mapped,
                    if the mapped = key_raw key_entry then max_marks' else - (max_marks' / 3))
              else (''--'', 0)))"

definition score_msq :: "AnswerKeyEntry \<Rightarrow> 'f ResponseQuestion \<Rightarrow> real \<Rightarrow> string \<times> real" where
  "score_msq key_entry response max_marks' =
     (let answers = mapped_answers response;
          student_answer = (if answers \<noteq> {} then join '';'' (sorted_list_of_set answers) else ''--'')
      in (student_answer, if answers = correct_set (key_raw key_entry) then max_marks' else 0))"

definition score_nat ::
  "'f float_ops \<Rightarrow> AnswerKeyEntry \<Rightarrow> 'f ResponseQuestion \<Rightarrow> real \<Rightarrow> string \<times> real" where
  \<comment> \<open>\<open>(lo - 1e-9) <= given_answer <= (hi + 1e-9)\<close> is the conjunction of two comparisons\<close>
  "score_nat ops key_entry response max_marks' =
     (case parse_nat_range ops (key_raw key_entry) of (lo, hi) \<Rightarrow>
        (case given_answer response of
           None \<Rightarrow> (''--'', 0)
         | Some answer \<Rightarrow>
             (float_str ops answer,
              if lo \<noteq> None \<and> hi \<noteq> None
                 \<and> float_le ops (float_sub ops (the lo) (float_1e_9 ops)) answer
                 \<and> float_le ops answer (float_add ops (the hi) (float_1e_9 ops))
              then max_marks' else 0)))"

definition score_row ::
  "'f float_ops \<Rightarrow> mark_table \<Rightarrow> AnswerKeyEntry \<Rightarrow> 'f ResponseQuestion \<Rightarrow> EvaluationRow" where
  \<comment> \<open>the body of the loop of \<open>evaluate\<close>\<close>
  "score_row ops mark_scheme key_entry response =
     (let max_marks = (case map_of mark_scheme (q_no key_entry) of None \<Rightarrow> 1 | Some v \<Rightarrow> v);
          result =
            (if q_type key_entry = ''MCQ'' then score_mcq key_entry response max_marks
             else if q_type key_entry = ''MSQ'' then score_msq key_entry response max_marks
             else if q_type key_entry = ''NAT'' then score_nat ops key_entry response max_marks
             else (''--'', 0))
      in \<lparr>row_q_no = q_no key_entry,
          row_question_id = question_id response,
          row_q_type = q_type key_entry,
          row_status = status response,
          student_answer = fst result,
          correct_answer = key_raw key_entry,
          marks = snd result,
          max_marks = max_marks\<rparr>)"

datatype error = ValueError nat nat
  \<comment> \<open>"Response sheet has only \<open>n\<close> questions, but answer key has \<open>m\<close>."\<close>

definition evaluate ::
  "'f float_ops \<Rightarrow> AnswerKeyEntry list \<Rightarrow> mark_table \<Rightarrow> 'f ResponseQuestion list
     \<Rightarrow> error + EvaluationRow list" where
  "evaluate ops answer_key mark_scheme response_questions =
     (let sorted_responses = sort_key question_id response_questions
      in if length sorted_responses < length answer_key
         then Inl (ValueError (length sorted_responses) (length answer_key))
         else Inr (map (\<lambda>(index, key_entry).
                          score_row ops mark_scheme key_entry (sorted_responses ! index))
                     (enumerate 0 answer_key)))"

section \<open>Doubles\<close>

text \<open>
  A Python float is an IEEE 754 double: a number that is finite, infinite or not a
  number, every result rounded to the nearest double, to the one with the even
  significand when two are equally near. A finite double is given by its value, but
  for the negative zero, which equals the zero in every comparison and differs from
  it in its text and in its sign.
\<close>

datatype double = Finite real | NegZero | PlusInf | MinusInf | NaN

definition round_half_even :: "real \<Rightarrow> int" where
  \<comment> \<open>the integer nearest to \<open>y\<close>, the even one of the two when \<open>y\<close> lies half way\<close>
  "round_half_even y =
     (let n = \<lfloor>y\<rfloor>; d = y - of_int n
      in if d < 1 / 2 then n else if 1 / 2 < d then n + 1 else if even n then n else n + 1)"

definition ilog2 :: "real \<Rightarrow> int" where
  \<comment> \<open>for \<open>a > 0\<close> the exponent \<open>e\<close> with \<open>2^e <= a < 2^(e+1)\<close>, see \<open>ilog2_bounds\<close>\<close>
  "ilog2 a = (if 1 \<le> a then bitlen \<lfloor>a\<rfloor> - 1 else - bitlen (\<lceil>1 / a\<rceil> - 1))"

definition round_to_double :: "real \<Rightarrow> double" where
  \<comment> \<open>the double nearest to \<open>x\<close>: a multiple of \<open>2^e\<close> with a significand of 53 bits, where
      \<open>e\<close> is at least \<open>-1074\<close> (subnormal numbers); infinite from \<open>2^1024\<close> on; a zero that
      keeps the sign of \<open>x\<close> when \<open>x\<close> is nearer to 0 than to any other double\<close>
  "round_to_double x =
     (if x = 0 then Finite 0
      else
        (let e = max (ilog2 \<bar>x\<bar>) (- 1022) - 52;
             y = of_int (round_half_even (x / 2 powi e)) * 2 powi e
         in if 2 ^ 1024 \<le> \<bar>y\<bar> then (if 0 < x then PlusInf else MinusInf)
            else if y = 0 \<and> x < 0 then NegZero else Finite y))"

fun double_add :: "double \<Rightarrow> double \<Rightarrow> double" where
  \<comment> \<open>\<open>x + y\<close>: the exact sum, rounded\<close>
  "double_add (Finite a) (Finite b) = round_to_double (a + b)"
| "double_add NaN y = NaN"
| "double_add x NaN = NaN"
| "double_add PlusInf MinusInf = NaN"
| "double_add MinusInf PlusInf = NaN"
| "double_add PlusInf y = PlusInf"
| "double_add x PlusInf = PlusInf"
| "double_add MinusInf y = MinusInf"
| "double_add x MinusInf = MinusInf"
| "double_add NegZero NegZero = NegZero"
| "double_add NegZero (Finite b) = Finite b"
| "double_add (Finite a) NegZero = Finite a"

fun double_neg :: "double \<Rightarrow> double" where
  "double_neg (Finite a) = (if a = 0 then NegZero else Finite (- a))"
| "double_neg NegZero = Finite 0"
| "double_neg PlusInf = MinusInf"
| "double_neg MinusInf = PlusInf"
| "double_neg NaN = NaN"

definition double_sub :: "double \<Rightarrow> double \<Rightarrow> double" where
  \<comment> \<open>\<open>x - y\<close>\<close>
  "double_sub x y = double_add x (double_neg y)"

fun double_le :: "double \<Rightarrow> double \<Rightarrow> bool" where
  \<comment> \<open>\<open>x <= y\<close>\<close>
  "double_le (Finite a) (Finite b) = (a \<le> b)"
| "double_le NaN y = False"
| "double_le x NaN = False"
| "double_le MinusInf y = True"
| "double_le x PlusInf = True"
| "double_le x MinusInf = False"
| "double_le PlusInf y = False"
| "double_le NegZero NegZero = True"
| "double_le NegZero (Finite b) = (0 \<le> b)"
| "double_le (Finite a) NegZero = (a \<le> 0)"

definition decimal_value :: "string \<Rightarrow> real" where
  \<comment> \<open>the number that a text of the shape of \<open>number\<close> writes, exactly\<close>
  "decimal_value s =
     (let sgn = (if take 1 s = ''-'' then - 1 else 1);
          body = (if take 1 s = ''-'' \<or> take 1 s = ''+'' then drop 1 s else s);
          whole = takeWhile is_digit body;
          frac = drop 1 (dropWhile is_digit body)
      in sgn * (real_of_int (int_of_digits whole) + real_of_int (int_of_digits frac) / 10 ^ length frac))"

definition double_of_str :: "string \<Rightarrow> double" where
  \<comment> \<open>\<open>float(s)\<close>: the double nearest to the number written\<close>
  "double_of_str s =
     (if decimal_value s = 0 \<and> take 1 s = ''-'' then NegZero else round_to_double (decimal_value s))"

definition ieee_double :: "(double \<Rightarrow> string) \<Rightarrow> double float_ops" where
  \<comment> \<open>the float operations of the program on doubles; \<open>str\<close> stays a parameter\<close>
  "ieee_double str =
     \<lparr>float_of_str = double_of_str, float_1e_9 = round_to_double (1 / 10 ^ 9),
      float_sub = double_sub, float_add = double_add, float_le = double_le, float_str = str\<rparr>"

section \<open>Auxiliary notions\<close>

text \<open>The groups a pattern can set, and what a successful match says about the
  continuation: it was called on a suffix of the text, with groups that differ from
  the ones passed in only where the pattern has a group.\<close>

fun grps :: "regex \<Rightarrow> nat set" where
  "grps (Sym P) = {}"
| "grps Eps = {}"
| "grps Eos = {}"
| "grps (Seq a b) = grps a \<union> grps b"
| "grps (Alt a b) = grps a \<union> grps b"
| "grps (Star r) = grps r"
| "grps (Grp i r) = insert i (grps r)"

definition reaches :: "nat set \<Rightarrow> string \<Rightarrow> groups \<Rightarrow> 'a cont \<Rightarrow> 'a \<Rightarrow> bool" where
  "reaches G s g k x = (\<exists>s' g'. k s' g' = Some x \<and> suffix s' s \<and> (\<forall>i. i \<notin> G \<longrightarrow> g' i = g i))"

definition valid_mark_table :: "mark_table \<Rightarrow> bool" where
  \<comment> \<open>the data model of a mark table: every mark value is 1.0 or 2.0\<close>
  "valid_mark_table ms = list_all (\<lambda>(q, v). v = 1 \<or> v = 2) ms"

definition no_floats :: "unit float_ops" where
  \<comment> \<open>stands in for the float operations in the examples that score no numeric answer\<close>
  "no_floats =
     \<lparr>float_of_str = (\<lambda>s. ()), float_1e_9 = (), float_sub = (\<lambda>x y. ()), float_add = (\<lambda>x y. ()),
      float_le = (\<lambda>x y. True), float_str = (\<lambda>x. ''<number>'')\<rparr>"

definition declarations :: "string option list \<Rightarrow> (string \<times> string \<times> string) list" where
  \<comment> \<open>the mark-band declarations found in the paper, in page order\<close>
  "declarations pages = concat (map (\<lambda>page. findall3 mark_pattern (page_text page)) pages)"

definition declared_within :: "string option list \<Rightarrow> int \<Rightarrow> bool" where
  \<comment> \<open>every declared range lies within \<open>1..total_questions\<close>\<close>
  "declared_within pages total_questions =
     list_all (\<lambda>(start_txt, end_txt, mark_word).
                 1 \<le> int_of_digits start_txt \<and> int_of_digits end_txt \<le> total_questions)
       (declarations pages)"

definition keys :: "mark_table \<Rightarrow> int set" where
  "keys m = fst ` set m"

definition reassemble :: "(string \<times> string) list \<Rightarrow> string" where
  \<comment> \<open>the content span and the metadata span of each anchor, one after the other\<close>
  "reassemble spans = concat (map (\<lambda>(content_text, metadata_text). content_text @ metadata_text) spans)"

definition in_order :: "nat \<Rightarrow> nat \<Rightarrow> match list \<Rightarrow> bool" where
  \<comment> \<open>matches that lie between \<open>p\<close> and \<open>q\<close>, none starting before the one before it ends\<close>
  "in_order p q ms =
     (list_all (\<lambda>m. p \<le> m_start m \<and> m_start m \<le> m_end m \<and> m_end m \<le> q) ms \<and>
      sorted_wrt (\<lambda>a b. m_end a \<le> m_start b) ms)"

definition next_start :: "string \<Rightarrow> match list \<Rightarrow> nat \<Rightarrow> nat" where
  "next_start t ms i = (if i + 1 < length ms then m_start (ms ! (i + 1)) else length t)"


section \<open>Properties of the matcher\<close>

lemma reaches_here: "k s g = Some x \<Longrightarrow> reaches G s g k x"
  unfolding reaches_def by blast

lemma reaches_mono: "reaches G s g k x \<Longrightarrow> G \<subseteq> H \<Longrightarrow> reaches H s g k x"
  unfolding reaches_def by blast

lemma reaches_step:
  assumes "reaches G s g (\<lambda>s' g'. h s' g') x"
    and "\<And>s' g'. h s' g' = Some x \<Longrightarrow> suffix s' s \<Longrightarrow> reaches G s' g' k x"
  shows "reaches G s g k x"
proof -
  from assms(1) obtain s1 g1 where 1: "h s1 g1 = Some x" "suffix s1 s" "\<forall>i. i \<notin> G \<longrightarrow> g1 i = g i"
    unfolding reaches_def by blast
  from assms(2)[OF 1(1,2)] obtain s2 g2 where 2: "k s2 g2 = Some x" "suffix s2 s1" "\<forall>i. i \<notin> G \<longrightarrow> g2 i = g1 i"
    unfolding reaches_def by blast
  have "suffix s2 s" using 1(2) 2(2) by (rule suffix_order.trans[rotated])
  with 1 2 show ?thesis unfolding reaches_def by auto
qed

lemma star_match_reaches:
  assumes f: "\<And>s g k. f s g k = Some x \<Longrightarrow> reaches G s g k x"
  shows "star_match f fuel s g k = Some x \<Longrightarrow> reaches G s g k x"
proof (induction fuel arbitrary: s g)
  case Nil
  then show ?case by (simp add: reaches_here)
next
  case (Cons b fuel)
  let ?K = "\<lambda>s' g'. if length s' < length s then star_match f fuel s' g' k else None"
  show ?case
  proof (cases "f s g ?K")
    case None
    with Cons.prems show ?thesis by (simp add: reaches_here)
  next
    case (Some y)
    with Cons.prems have "f s g ?K = Some x" by simp
    from f[OF this] have "reaches G s g ?K x" .
    then show ?thesis
    proof (rule reaches_step)
      fix s' g' assume "?K s' g' = Some x" "suffix s' s"
      then have "star_match f fuel s' g' k = Some x" by (simp split: if_splits)
      then show "reaches G s' g' k x" by (rule Cons.IH)
    qed
  qed
qed

lemma rmatch_reaches:
  "rmatch r s g k = Some x \<Longrightarrow> reaches (grps r) s g k x"
proof (induction r arbitrary: s g k)
  case (Sym P)
  then obtain c cs where s: "s = c # cs" "P c" "k cs g = Some x"
    by (auto split: list.splits if_splits)
  then show ?case unfolding reaches_def by (auto intro: suffix_ConsI)
next
  case Eps
  then show ?case by (simp add: reaches_here)
next
  case Eos
  then show ?case by (auto simp: reaches_here split: if_splits)
next
  case (Seq r1 r2)
  from Seq.prems have "rmatch r1 s g (\<lambda>s' g'. rmatch r2 s' g' k) = Some x" by simp
  from Seq.IH(1)[OF this] have "reaches (grps (Seq r1 r2)) s g (\<lambda>s' g'. rmatch r2 s' g' k) x"
    by (rule reaches_mono) simp
  then show ?case
  proof (rule reaches_step)
    fix s' g' assume "rmatch r2 s' g' k = Some x"
    from Seq.IH(2)[OF this] show "reaches (grps (Seq r1 r2)) s' g' k x"
      by (rule reaches_mono) simp
  qed
next
  case (Alt r1 r2)
  show ?case
  proof (cases "rmatch r1 s g k")
    case None
    with Alt.prems have "rmatch r2 s g k = Some x" by simp
    from Alt.IH(2)[OF this] show ?thesis by (rule reaches_mono) simp
  next
    case (Some y)
    with Alt.prems have "rmatch r1 s g k = Some x" by simp
    from Alt.IH(1)[OF this] show ?thesis by (rule reaches_mono) simp
  qed
next
  case (Star r)
  from Star.prems have "star_match (rmatch r) s s g k = Some x" by simp
  then have "reaches (grps r) s g k x"
    by (rule star_match_reaches[rotated]) (rule Star.IH)
  then show ?case by simp
next
  case (Grp i r)
  let ?K = "\<lambda>s' g'. k s' (g'(i \<mapsto> take (length s - length s') s))"
  from Grp.prems have "rmatch r s g ?K = Some x" by simp
  from Grp.IH[OF this] obtain s1 g1 where
    1: "?K s1 g1 = Some x" "suffix s1 s" "\<forall>j. j \<notin> grps r \<longrightarrow> g1 j = g j"
    unfolding reaches_def by blast
  then show ?case unfolding reaches_def
    by (intro exI[of _ s1] exI[of _ "g1(i \<mapsto> take (length s - length s1) s)"]) auto
qed

lemma match_here_suffix:
  "match_here r s = Some (s', g) \<Longrightarrow> suffix s' s"
  unfolding match_here_def by (drule rmatch_reaches) (auto simp: reaches_def)

lemma match_here_length:
  "match_here r s = Some (s', g) \<Longrightarrow> length s' \<le> length s"
  by (drule match_here_suffix) (rule suffix_length_le)

section \<open>Properties of the answer key\<close>

lemma distinct_map_sort_key: "distinct (map f (sort_key f xs)) = distinct (map f xs)"
  by (induction xs) (simp_all add: distinct_insort_key)

lemma row_entry_Some:
  "row_entry row = Some e \<Longrightarrow> numbered row \<and> q_no e = row_number row"
  by (auto simp: row_entry_def Let_def numbered_def row_number_def split: if_splits)

lemma q_no_map_filter:
  "subseq (map q_no (List.map_filter row_entry rows)) (map row_number (filter numbered rows))"
proof (induction rows)
  case Nil
  then show ?case by (simp add: map_filter_simps)
next
  case (Cons row rows)
  show ?case
  proof (cases "row_entry row")
    case None
    with Cons show ?thesis by (auto simp: map_filter_simps)
  next
    case (Some e)
    from row_entry_Some[OF this] Some Cons show ?thesis by (simp add: map_filter_simps)
  qed
qed

lemma q_no_table_entries:
  "subseq (map q_no (table_entries table)) (map row_number (filter numbered table))"
proof (cases "table_entries table = []")
  case True
  then show ?thesis by simp
next
  case False
  then have te: "table_entries table = List.map_filter row_entry (tl table)"
    by (auto simp: table_entries_def Let_def split: if_splits)
  have "subseq (tl table) table" by (cases table) auto
  then have "subseq (map row_number (filter numbered (tl table))) (map row_number (filter numbered table))"
    by (intro subseq_map) simp
  with q_no_map_filter[of "tl table"] show ?thesis
    unfolding te by (rule subseq_order.trans)
qed

lemma q_no_page:
  "subseq (map q_no (concat (map table_entries page))) (map row_number (filter numbered (concat page)))"
proof (induction page)
  case Nil
  then show ?case by simp
next
  case (Cons table page)
  from list_emb_append_mono[OF q_no_table_entries[of table] Cons] show ?case by simp
qed

lemma q_no_collect_entries:
  "subseq (map q_no (collect_entries pdf)) (numbered_rows pdf)"
  unfolding collect_entries_def numbered_rows_def
proof (induction pdf)
  case Nil
  then show ?case by simp
next
  case (Cons page pdf)
  from list_emb_append_mono[OF q_no_page[of page] Cons] show ?case by simp
qed

lemma subseq_distinct: "subseq xs ys \<Longrightarrow> distinct ys \<Longrightarrow> distinct xs"
  by (auto simp: subseq_conv_nths)

text \<open>
  C7. The entries returned by \<open>parse_answer_key\<close> are sorted in ascending order of
  \<open>q_no\<close>, and for a valid key document, one in which no question number stands in two
  rows, no two entries have the same \<open>q_no\<close>.
\<close>

theorem answer_key_sorted_unique:
  "sorted (map q_no (parse_answer_key pdf)) \<and>
   (valid_key_document pdf \<longrightarrow> distinct (map q_no (parse_answer_key pdf)))"
proof (intro conjI impI)
  show "sorted (map q_no (parse_answer_key pdf))"
    by (simp add: parse_answer_key_def)
next
  assume "valid_key_document pdf"
  then have "distinct (numbered_rows pdf)" by (simp add: valid_key_document_def)
  with q_no_collect_entries[of pdf] have "distinct (map q_no (collect_entries pdf))"
    by (rule subseq_distinct)
  then show "distinct (map q_no (parse_answer_key pdf))"
    by (simp add: parse_answer_key_def distinct_map_sort_key)
qed

theorem answer_key_sorted_unique_witness:
  "valid_key_document
     [[[[Some ''Q. No.'', Some ''Q. Type'', Some ''Section'', Some ''Key''],
        [Some ''2'', Some ''mcq'', Some ''GA'', Some ''B''],
        [Some ''  3 '', Some ''NAT'', None, Some ''1.5 to 2'']]],
      [[[Some ''Session 1'']],
       [[Some ''Q. No.'', Some ''Q. Type'', Some ''Section'', Some ''Key''],
        [Some ''1'', Some ''MSQ'', Some ''CS'', Some ''A;C''],
        [None, None, None, None]]]] \<and>
   map q_no (parse_answer_key
     [[[[Some ''Q. No.'', Some ''Q. Type'', Some ''Section'', Some ''Key''],
        [Some ''2'', Some ''mcq'', Some ''GA'', Some ''B''],
        [Some ''  3 '', Some ''NAT'', None, Some ''1.5 to 2'']]],
      [[[Some ''Session 1'']],
       [[Some ''Q. No.'', Some ''Q. Type'', Some ''Section'', Some ''Key''],
        [Some ''1'', Some ''MSQ'', Some ''CS'', Some ''A;C''],
        [None, None, None, None]]]]) = [1, 2, 3] \<and>
   distinct (map q_no (parse_answer_key
     [[[[Some ''Q. No.'', Some ''Q. Type'', Some ''Section'', Some ''Key''],
        [Some ''2'', Some ''mcq'', Some ''GA'', Some ''B''],
        [Some ''  3 '', Some ''NAT'', None, Some ''1.5 to 2'']]],
      [[[Some ''Session 1'']],
       [[Some ''Q. No.'', Some ''Q. Type'', Some ''Section'', Some ''Key''],
        [Some ''1'', Some ''MSQ'', Some ''CS'', Some ''A;C''],
        [None, None, None, None]]]]))"
proof -
  let ?pdf = "[[[[Some ''Q. No.'', Some ''Q. Type'', Some ''Section'', Some ''Key''],
        [Some ''2'', Some ''mcq'', Some ''GA'', Some ''B''],
        [Some ''  3 '', Some ''NAT'', None, Some ''1.5 to 2'']]],
      [[[Some ''Session 1'']],
       [[Some ''Q. No.'', Some ''Q. Type'', Some ''Section'', Some ''Key''],
        [Some ''1'', Some ''MSQ'', Some ''CS'', Some ''A;C''],
        [None, None, None, None]]]]"
  have v: "valid_key_document ?pdf" by code_simp
  have e: "map q_no (parse_answer_key ?pdf) = [1, 2, 3]" by code_simp
  from answer_key_sorted_unique[of ?pdf] v have "distinct (map q_no (parse_answer_key ?pdf))"
    by blast
  with v e show ?thesis by blast
qed

section \<open>Properties of the mark scheme\<close>

lemma keys_update: "keys (AList.update q v m) = insert q (keys m)"
  by (simp add: keys_def dom_update)

lemma keys_assign_list:
  "keys (foldl (\<lambda>m q. AList.update q v m) m qs) = keys m \<union> set qs"
  by (induction qs arbitrary: m) (auto simp: keys_update)

lemma distinct_assign_list:
  "distinct (map fst m) \<Longrightarrow> distinct (map fst (foldl (\<lambda>m q. AList.update q v m) m qs))"
  by (induction qs arbitrary: m) (auto simp: distinct_update)

lemma keys_assign_range: "keys (assign_range m a b v) = keys m \<union> {a..b}"
  by (simp add: assign_range_def keys_assign_list)

lemma distinct_assign_range:
  "distinct (map fst m) \<Longrightarrow> distinct (map fst (assign_range m a b v))"
  by (simp add: assign_range_def distinct_assign_list)

lemma keys_apply_declaration:
  "keys (apply_declaration m (s, e, w)) \<subseteq> keys m \<union> {int_of_digits s..int_of_digits e}"
  by (auto simp: apply_declaration_def Let_def keys_assign_range split: option.splits)

lemma distinct_apply_declaration:
  "distinct (map fst m) \<Longrightarrow> distinct (map fst (apply_declaration m d))"
  by (cases d) (auto simp: apply_declaration_def Let_def distinct_assign_range split: option.splits)

lemma scan_pages_declarations:
  "foldl scan_page m pages = foldl apply_declaration m (declarations pages)"
  by (induction pages arbitrary: m) (simp_all add: declarations_def scan_page_def)

lemma keys_declarations:
  assumes "list_all (\<lambda>(s, e, w). 1 \<le> int_of_digits s \<and> int_of_digits e \<le> n) ds"
    and "keys m \<subseteq> {1..n}"
  shows "keys (foldl apply_declaration m ds) \<subseteq> {1..n}"
  using assms
proof (induction ds arbitrary: m)
  case Nil
  then show ?case by simp
next
  case (Cons d ds)
  obtain s e w where d: "d = (s, e, w)" by (cases d)
  from Cons.prems(1) d have b: "1 \<le> int_of_digits s" "int_of_digits e \<le> n"
    and rest: "list_all (\<lambda>(s, e, w). 1 \<le> int_of_digits s \<and> int_of_digits e \<le> n) ds"
    by auto
  have "keys (apply_declaration m d) \<subseteq> {1..n}"
    using keys_apply_declaration[of m s e w] Cons.prems(2) b d by auto
  from Cons.IH[OF rest this] show ?case by simp
qed

lemma distinct_declarations:
  "distinct (map fst m) \<Longrightarrow> distinct (map fst (foldl apply_declaration m ds))"
  by (induction ds arbitrary: m) (auto simp: distinct_apply_declaration)

lemma keys_fill_missing: "keys (fill_missing m q) = insert q (keys m)"
proof (cases "map_of m q")
  case None
  then show ?thesis by (simp add: fill_missing_def keys_update)
next
  case (Some v)
  then have "q \<in> keys m" unfolding keys_def by (force dest: map_of_SomeD)
  with Some show ?thesis by (auto simp: fill_missing_def)
qed

lemma distinct_fill_missing:
  "distinct (map fst m) \<Longrightarrow> distinct (map fst (fill_missing m q))"
  by (simp add: fill_missing_def distinct_update)

lemma keys_fill_list: "keys (foldl fill_missing m qs) = keys m \<union> set qs"
  by (induction qs arbitrary: m) (auto simp: keys_fill_missing)

lemma distinct_fill_list:
  "distinct (map fst m) \<Longrightarrow> distinct (map fst (foldl fill_missing m qs))"
  by (induction qs arbitrary: m) (auto simp: distinct_fill_missing)

lemma distinct_parse_mark_scheme: "distinct (map fst (parse_mark_scheme pages n))"
  by (simp add: parse_mark_scheme_def Let_def scan_pages_declarations
      distinct_declarations distinct_fill_list)

lemma length_keys: "distinct (map fst m) \<Longrightarrow> length m = card (keys m)"
  unfolding keys_def by (metis distinct_card length_map set_map)

text \<open>Every table that \<open>parse_mark_scheme\<close> returns holds the values 1.0 and 2.0 only.\<close>

lemma valid_update:
  "valid_mark_table m \<Longrightarrow> v = 1 \<or> v = 2 \<Longrightarrow> valid_mark_table (AList.update q v m)"
  by (induction m) (auto simp: valid_mark_table_def)

lemma valid_assign_list:
  "valid_mark_table m \<Longrightarrow> v = 1 \<or> v = 2 \<Longrightarrow>
   valid_mark_table (foldl (\<lambda>m q. AList.update q v m) m qs)"
  by (induction qs arbitrary: m) (simp_all add: valid_update)

lemma mark_word_to_value_cases: "mark_word_to_value w = Some v \<Longrightarrow> v = 1 \<or> v = 2"
  by (auto simp: mark_word_to_value_def Let_def split: if_splits)

lemma valid_apply_declaration:
  "valid_mark_table m \<Longrightarrow> valid_mark_table (apply_declaration m d)"
  by (cases d)
    (auto simp: apply_declaration_def Let_def assign_range_def
      intro!: valid_assign_list dest: mark_word_to_value_cases split: option.splits)

lemma valid_declarations:
  "valid_mark_table m \<Longrightarrow> valid_mark_table (foldl apply_declaration m ds)"
  by (induction ds arbitrary: m) (simp_all add: valid_apply_declaration)

lemma valid_fill_missing: "valid_mark_table m \<Longrightarrow> valid_mark_table (fill_missing m q)"
  by (auto simp: fill_missing_def fallback_value_def intro!: valid_update)

lemma valid_fill_list: "valid_mark_table m \<Longrightarrow> valid_mark_table (foldl fill_missing m qs)"
  by (induction qs arbitrary: m) (simp_all add: valid_fill_missing)

lemma parse_mark_scheme_valid: "valid_mark_table (parse_mark_scheme pages total_questions)"
proof -
  have "valid_mark_table (foldl scan_page [] pages)"
    unfolding scan_pages_declarations
    by (rule valid_declarations) (simp add: valid_mark_table_def)
  then show ?thesis
    by (simp add: parse_mark_scheme_def Let_def valid_fill_list)
qed

lemma seq_peel:
  assumes "rmatch (Seq a r) s g k = Some x"
  shows "\<exists>s' g'. rmatch r s' g' k = Some x"
proof -
  from assms have "rmatch a s g (\<lambda>s' g'. rmatch r s' g' k) = Some x" by simp
  from rmatch_reaches[OF this] show ?thesis by (auto simp: reaches_def)
qed

lemma ilit_match:
  "rmatch (ilit w) s g k = Some x \<Longrightarrow> \<exists>u s'. s = u @ s' \<and> upper u = upper w \<and> k s' g = Some x"
proof (induction w arbitrary: s)
  case Nil
  then show ?case by (auto simp: ilit_def upper_def)
next
  case (Cons c w)
  from Cons.prems obtain a s1 where s: "s = a # s1" and c: "ieq c a"
    and r: "rmatch (ilit w) s1 g k = Some x"
    by (auto simp: ilit_def split: list.splits if_splits)
  from Cons.IH[OF r] obtain u s' where "s1 = u @ s'" "upper u = upper w" "k s' g = Some x"
    by blast
  with s c show ?case
    by (intro exI[of _ "a # u"] exI[of _ s']) (simp add: upper_def ieq_def)
qed

lemma finditer_from_match:
  "m \<in> set (finditer_from r p s) \<Longrightarrow> \<exists>t s'. match_here r t = Some (s', m_groups m)"
proof (induction r p s rule: finditer_from.induct)
  case (1 r p s)
  note simp = finditer_from.simps[of r p s]
  show ?case
  proof (cases "match_here r s")
    case None
    with "1.prems" obtain c cs where s: "s = c # cs" and "m \<in> set (finditer_from r (Suc p) cs)"
      by (auto simp del: finditer_from.simps simp add: simp split: list.splits)
    with "1.IH"(1)[OF None s] show ?thesis by blast
  next
    case (Some a)
    obtain s' g where a: "a = (s', g)" by (cases a)
    show ?thesis
    proof (cases "m_groups m = g \<and> m = \<lparr>m_start = p, m_end = p + (length s - length s'), m_groups = g\<rparr>")
      case True
      with Some a show ?thesis by auto
    next
      case False
      show ?thesis
      proof (cases "length s' < length s")
        case True
        with "1.prems" Some a False have "m \<in> set (finditer_from r (p + (length s - length s')) s')"
          by (auto simp del: finditer_from.simps simp add: simp)
        with "1.IH"(2)[OF Some a[symmetric] True] show ?thesis by blast
      next
        case nl: False
        with "1.prems" Some a False obtain c cs where s: "s = c # cs"
          and "m \<in> set (finditer_from r (Suc p) cs)"
          by (auto simp del: finditer_from.simps simp add: simp split: list.splits)
        with "1.IH"(3)[OF Some a[symmetric] nl s] show ?thesis by blast
      qed
    qed
  qed
qed

lemma mark_pattern_word:
  assumes "match_here mark_pattern t = Some (s', g)"
  shows "\<exists>w. g 3 = Some w \<and> (upper w = ''ONE'' \<or> upper w = ''TWO'')"
proof -
  define R where "R = seqs [ws, ilit ''mark'', ws, ilit ''Each'']"
  define W where "W = Seq (Grp 3 (Alt (ilit ''ONE'') (ilit ''TWO''))) R"
  let ?K = "\<lambda>s' g. Some (s', g)"
  have G: "grps R = {}" by (simp add: R_def seqs_def ilit_def ws_def)
  have mp: "mark_pattern =
    Seq (ilit ''Q.'') (Seq ws (Seq (Grp 1 digits) (Seq ws (Seq (Alt (lit en_dash) (lit ''-''))
      (Seq ws (Seq (ilit ''Q.'') (Seq ws (Seq (Grp 2 digits) (Seq ws (Seq (ilit ''Carry'')
      (Seq ws W)))))))))))"
    by (simp add: mark_pattern_def seqs_def W_def R_def)
  from assms have "rmatch mark_pattern t Map.empty ?K = Some (s', g)"
    by (simp add: match_here_def)
  then have "\<exists>s1 g1. rmatch W s1 g1 ?K = Some (s', g)"
    unfolding mp by (blast dest: seq_peel)
  then obtain s1 g1 where w: "rmatch W s1 g1 ?K = Some (s', g)" by blast
  let ?K3 = "\<lambda>s2 g2. rmatch R s2 (g2(3 \<mapsto> take (length s1 - length s2) s1)) ?K"
  from w have alt: "rmatch (Alt (ilit ''ONE'') (ilit ''TWO'')) s1 g1 ?K3 = Some (s', g)"
    by (simp add: W_def)
  then consider (one) "rmatch (ilit ''ONE'') s1 g1 ?K3 = Some (s', g)"
    | (two) "rmatch (ilit ''TWO'') s1 g1 ?K3 = Some (s', g)"
    by (auto split: option.splits)
  then have "\<exists>u s2. s1 = u @ s2 \<and> (upper u = upper ''ONE'' \<or> upper u = upper ''TWO'')
      \<and> ?K3 s2 g1 = Some (s', g)"
  proof cases
    case one
    from ilit_match[OF this] show ?thesis by blast
  next
    case two
    from ilit_match[OF this] show ?thesis by blast
  qed
  then obtain u s2 where u: "s1 = u @ s2" "upper u = upper ''ONE'' \<or> upper u = upper ''TWO''"
    and k: "?K3 s2 g1 = Some (s', g)"
    by blast
  from k u(1) have "rmatch R s2 (g1(3 \<mapsto> u)) ?K = Some (s', g)" by simp
  from rmatch_reaches[OF this] G have "g 3 = Some u" by (auto simp: reaches_def)
  moreover from u(2) have "upper u = ''ONE'' \<or> upper u = ''TWO''"
    by (auto simp: upper_def upper_char_def)
  ultimately show ?thesis by blast
qed

lemma declaration_word:
  assumes "(start_txt, end_txt, mark_word) \<in> set (declarations pages)"
  shows "mark_word_to_value mark_word \<noteq> None"
proof -
  from assms obtain page m where "m \<in> set (finditer mark_pattern (page_text page))"
    and mw: "mark_word = group m 3"
    by (auto simp: declarations_def findall3_def)
  then obtain t s' where "match_here mark_pattern t = Some (s', m_groups m)"
    unfolding finditer_def by (blast dest: finditer_from_match)
  from mark_pattern_word[OF this] mw show ?thesis
    by (auto simp: group_def mark_word_to_value_def Let_def)
qed

lemma keys_apply_declaration_mono: "keys m \<subseteq> keys (apply_declaration m d)"
  by (cases d) (auto simp: apply_declaration_def Let_def keys_assign_range split: option.splits)

lemma keys_apply_declaration_range:
  "mark_word_to_value w \<noteq> None \<Longrightarrow>
   {int_of_digits s..int_of_digits e} \<subseteq> keys (apply_declaration m (s, e, w))"
  by (auto simp: apply_declaration_def Let_def keys_assign_range)

lemma keys_declarations_mono: "keys m \<subseteq> keys (foldl apply_declaration m ds)"
proof (induction ds arbitrary: m)
  case Nil
  then show ?case by simp
next
  case (Cons d ds)
  from keys_apply_declaration_mono[of m d] Cons[of "apply_declaration m d"] show ?case by auto
qed

lemma keys_declarations_range:
  assumes "(s, e, w) \<in> set ds" and "mark_word_to_value w \<noteq> None"
  shows "{int_of_digits s..int_of_digits e} \<subseteq> keys (foldl apply_declaration m ds)"
  using assms(1)
proof (induction ds arbitrary: m)
  case Nil
  then show ?case by simp
next
  case (Cons d ds)
  show ?case
  proof (cases "d = (s, e, w)")
    case True
    from keys_apply_declaration_range[OF assms(2), of s e m]
      keys_declarations_mono[of "apply_declaration m (s, e, w)" ds] True
    show ?thesis by auto
  next
    case False
    with Cons.prems have "(s, e, w) \<in> set ds" by simp
    from Cons.IH[OF this, of "apply_declaration m d"] show ?thesis by simp
  qed
qed

lemma keys_parse_mark_scheme_mono:
  "keys (foldl scan_page [] pages) \<subseteq> keys (parse_mark_scheme pages n)"
  by (auto simp: parse_mark_scheme_def Let_def keys_fill_list)

lemma mark_scheme_exact:
  assumes "declared_within pages total_questions"
  shows "keys (parse_mark_scheme pages total_questions) = {1..total_questions} \<and>
         length (parse_mark_scheme pages total_questions) = nat total_questions"
proof -
  define scanned where "scanned = foldl scan_page [] pages"
  have d: "distinct (map fst scanned)"
    by (simp add: scanned_def scan_pages_declarations distinct_declarations)
  have sub: "keys scanned \<subseteq> {1..total_questions}"
    unfolding scanned_def scan_pages_declarations
    by (rule keys_declarations) (use assms in \<open>simp_all add: declared_within_def keys_def\<close>)
  have k: "keys (parse_mark_scheme pages total_questions) = {1..total_questions}"
  proof (cases "int (length scanned) < total_questions")
    case True
    then have "parse_mark_scheme pages total_questions = foldl fill_missing scanned [1..total_questions]"
      by (simp add: parse_mark_scheme_def scanned_def)
    with sub show ?thesis by (auto simp: keys_fill_list)
  next
    case False
    then have p: "parse_mark_scheme pages total_questions = scanned"
      by (simp add: parse_mark_scheme_def scanned_def)
    from False have "card {1..total_questions} \<le> card (keys scanned)"
      using length_keys[OF d] by simp
    with sub have "keys scanned = {1..total_questions}"
      by (metis card_seteq finite_atLeastAtMost_int)
    with p show ?thesis by simp
  qed
  have "length (parse_mark_scheme pages total_questions) = card {1..total_questions}"
    using length_keys[OF distinct_parse_mark_scheme, of pages total_questions] k by simp
  with k show ?thesis by simp
qed

text \<open>
  C1, as amended. When every mark-band declaration found in the paper has its range
  within \<open>1..total_questions\<close> (in particular when there is none), the table returned
  by \<open>parse_mark_scheme\<close> has exactly \<open>total_questions\<close> entries and its keys are
  exactly \<open>1..total_questions\<close>. In every case, each question number in the range of a
  declaration found in the paper is a key of the table, also a number outside
  \<open>1..total_questions\<close>.
\<close>

theorem mark_scheme_covers:
  "(declared_within pages total_questions \<longrightarrow>
      keys (parse_mark_scheme pages total_questions) = {1..total_questions} \<and>
      length (parse_mark_scheme pages total_questions) = nat total_questions) \<and>
   (\<forall>(start_txt, end_txt, mark_word) \<in> set (declarations pages).
      {int_of_digits start_txt..int_of_digits end_txt}
        \<subseteq> keys (parse_mark_scheme pages total_questions))"
proof -
  have a: "declared_within pages total_questions \<longrightarrow>
      keys (parse_mark_scheme pages total_questions) = {1..total_questions} \<and>
      length (parse_mark_scheme pages total_questions) = nat total_questions"
    using mark_scheme_exact[of pages total_questions] by blast
  have b: "\<forall>(start_txt, end_txt, mark_word) \<in> set (declarations pages).
      {int_of_digits start_txt..int_of_digits end_txt}
        \<subseteq> keys (parse_mark_scheme pages total_questions)"
  proof
    fix d assume d: "d \<in> set (declarations pages)"
    obtain s e w where sew: "d = (s, e, w)" by (cases d)
    from d sew have w: "mark_word_to_value w \<noteq> None" by (auto dest: declaration_word)
    from d sew have "(s, e, w) \<in> set (declarations pages)" by simp
    then have "{int_of_digits s..int_of_digits e} \<subseteq> keys (foldl scan_page [] pages)"
      unfolding scan_pages_declarations by (rule keys_declarations_range) (rule w)
    with keys_parse_mark_scheme_mono[of pages total_questions]
    have "{int_of_digits s..int_of_digits e} \<subseteq> keys (parse_mark_scheme pages total_questions)"
      by blast
    with sew show "case d of (start_txt, end_txt, mark_word) \<Rightarrow>
        {int_of_digits start_txt..int_of_digits end_txt}
          \<subseteq> keys (parse_mark_scheme pages total_questions)"
      by simp
  qed
  from a b show ?thesis by (rule conjI)
qed

theorem mark_scheme_covers_witness:
  "declared_within [Some ''Q.1 - Q.5 Carry ONE mark Each. Q.6-Q.8 carry two mark each''] 10 \<and>
   keys (parse_mark_scheme [Some ''Q.1 - Q.5 Carry ONE mark Each. Q.6-Q.8 carry two mark each''] 10) = {1..10} \<and>
   length (parse_mark_scheme [Some ''Q.1 - Q.5 Carry ONE mark Each. Q.6-Q.8 carry two mark each''] 10) = 10 \<and>
   declared_within [Some ''no mark bands on this page'', None] 3 \<and>
   keys (parse_mark_scheme [Some ''no mark bands on this page'', None] 3) = {1..3} \<and>
   length (parse_mark_scheme [Some ''no mark bands on this page'', None] 3) = 3 \<and>
   (''1'', ''10'', ''ONE'') \<in> set (declarations [Some ''Q.1 - Q.10 Carry ONE mark Each'']) \<and>
   {1..10} \<subseteq> keys (parse_mark_scheme [Some ''Q.1 - Q.10 Carry ONE mark Each''] 5)"
proof -
  have a: "declared_within [Some ''Q.1 - Q.5 Carry ONE mark Each. Q.6-Q.8 carry two mark each''] 10"
    by code_simp
  have b: "declared_within [Some ''no mark bands on this page'', None] 3" by code_simp
  have c: "(''1'', ''10'', ''ONE'') \<in> set (declarations [Some ''Q.1 - Q.10 Carry ONE mark Each''])"
    by code_simp
  have d: "int_of_digits ''1'' = 1" "int_of_digits ''10'' = 10"
    by (simp_all add: int_of_digits_def digit_val_def)
  from mark_scheme_covers[of "[Some ''Q.1 - Q.5 Carry ONE mark Each. Q.6-Q.8 carry two mark each'']" 10]
    mark_scheme_covers[of "[Some ''no mark bands on this page'', None]" 3]
    mark_scheme_covers[of "[Some ''Q.1 - Q.10 Carry ONE mark Each'']" 5]
    a b c d
  show ?thesis by force
qed

theorem mark_scheme_range_beyond_total_counterexample:
  "parse_mark_scheme [Some ''Q.1 - Q.10 Carry ONE mark Each''] 5 =
     [(1, 1), (2, 1), (3, 1), (4, 1), (5, 1), (6, 1), (7, 1), (8, 1), (9, 1), (10, 1)]"
  by code_simp

text \<open>
  C6. The pattern asks for the singular: the text "mark" must be followed by white
  space or directly by "Each". A declaration written with the plural "marks" is not
  found, and its questions get the fallback values; the same declaration with "mark"
  is found.
\<close>

theorem plural_marks_not_recognized:
  "findall3 mark_pattern ''Q.1 - Q.5 Carry TWO marks Each'' = [] \<and>
   parse_mark_scheme [Some ''Q.1 - Q.5 Carry TWO marks Each''] 5 =
     [(1, 1), (2, 1), (3, 1), (4, 1), (5, 1)] \<and>
   findall3 mark_pattern ''Q.1 - Q.5 Carry TWO mark Each'' = [(''1'', ''5'', ''TWO'')] \<and>
   parse_mark_scheme [Some ''Q.1 - Q.5 Carry TWO mark Each''] 5 =
     [(1, 2), (2, 2), (3, 2), (4, 2), (5, 2)]"
  by code_simp

section \<open>Properties of the segmenter\<close>

lemma in_order_weaken: "in_order p q ms \<Longrightarrow> p' \<le> p \<Longrightarrow> in_order p' q ms"
  by (auto simp: in_order_def list_all_iff)

lemma in_order_Cons:
  assumes "in_order e q ms" "p \<le> s" "s \<le> e" "e \<le> q"
  shows "in_order p q (\<lparr>m_start = s, m_end = e, m_groups = g\<rparr> # ms)"
  using assms by (auto simp: in_order_def list_all_iff)

lemma finditer_from_in_order: "in_order p (p + length s) (finditer_from r p s)"
proof (induction r p s rule: finditer_from.induct)
  case (1 r p s)
  note simp = finditer_from.simps[of r p s]
  show ?case
  proof (cases "match_here r s")
    case None
    show ?thesis
    proof (cases s)
      case Nil
      with None show ?thesis by (simp add: simp in_order_def)
    next
      case (Cons c cs)
      from "1.IH"(1)[OF None Cons] have "in_order (Suc p) (Suc p + length cs) (finditer_from r (Suc p) cs)" .
      then have "in_order p (p + length s) (finditer_from r (Suc p) cs)"
        using Cons by (auto intro: in_order_weaken)
      with None Cons show ?thesis by (simp add: simp)
    qed
  next
    case (Some a)
    obtain s' g where a: "a = (s', g)" by (cases a)
    from Some a have le: "length s' \<le> length s" by (auto dest: match_here_length)
    let ?e = "p + (length s - length s')"
    show ?thesis
    proof (cases "length s' < length s")
      case True
      from "1.IH"(2)[OF Some a[symmetric] True]
      have "in_order ?e (?e + length s') (finditer_from r ?e s')" .
      with le have "in_order ?e (p + length s) (finditer_from r ?e s')" by simp
      then have "in_order p (p + length s)
          (\<lparr>m_start = p, m_end = ?e, m_groups = g\<rparr> # finditer_from r ?e s')"
        by (rule in_order_Cons) (use le in auto)
      with Some a True show ?thesis by (simp add: simp)
    next
      case False
      with le have eq: "length s' = length s" by simp
      show ?thesis
      proof (cases s)
        case Nil
        with Some a False eq show ?thesis by (simp add: simp in_order_def)
      next
        case (Cons c cs)
        from "1.IH"(3)[OF Some a[symmetric] False Cons]
        have "in_order (Suc p) (Suc p + length cs) (finditer_from r (Suc p) cs)" .
        then have "in_order p (p + length s) (finditer_from r (Suc p) cs)"
          using Cons by (auto intro: in_order_weaken)
        then have "in_order p (p + length s)
            (\<lparr>m_start = p, m_end = p, m_groups = g\<rparr> # finditer_from r (Suc p) cs)"
          by (rule in_order_Cons[OF in_order_weaken]) auto
        with Some a False eq Cons show ?thesis by (simp add: simp)
      qed
    qed
  qed
qed

lemma finditer_in_order: "in_order 0 (length s) (finditer r s)"
  using finditer_from_in_order[of 0 s r] by (simp add: finditer_def)

lemma in_order_nth:
  assumes "in_order p q ms" "i < length ms"
  shows "p \<le> m_start (ms ! i)" "m_start (ms ! i) \<le> m_end (ms ! i)" "m_end (ms ! i) \<le> q"
  using assms by (auto simp: in_order_def list_all_length)

lemma in_order_next:
  assumes "in_order p q ms" "Suc i < length ms"
  shows "m_end (ms ! i) \<le> m_start (ms ! Suc i)"
  using assms by (auto simp: in_order_def sorted_wrt_iff_nth_less)

lemma snd_spans_at: "snd (spans_at t ms i) = slice t (m_start (ms ! i)) (next_start t ms i)"
  by (simp add: spans_at_def Let_def next_start_def)

lemma fst_spans_at:
  "fst (spans_at t ms i) = slice t (if i > 0 then m_end (ms ! (i - 1)) else 0) (m_start (ms ! i))"
  by (simp add: spans_at_def Let_def)

lemma start_le_next:
  assumes "in_order 0 (length t) ms" "i < length ms"
  shows "m_start (ms ! i) \<le> next_start t ms i"
proof (cases "Suc i < length ms")
  case True
  from in_order_nth(2)[OF assms] in_order_next[OF assms(1) True] True
  show ?thesis by (simp add: next_start_def)
next
  case False
  from in_order_nth(2,3)[OF assms] False show ?thesis by (simp add: next_start_def)
qed

lemma take_append_slice: "a \<le> b \<Longrightarrow> take a t @ slice t a b = take b t"
proof -
  assume "a \<le> b"
  then have "take a t = take a (take b t)" by (simp add: min_def)
  then show ?thesis unfolding slice_def by (metis append_take_drop_id)
qed

lemma metadata_pieces:
  assumes o: "in_order 0 (length t) ms" and k: "k \<le> length ms" and ne: "ms \<noteq> []"
  shows "take (m_start (ms ! 0)) t @ concat (map (\<lambda>i. snd (spans_at t ms i)) [0..<k]) =
         take (if k < length ms then m_start (ms ! k) else length t) t"
  using k
proof (induction k)
  case 0
  then show ?case
    using ne by simp
next
  case (Suc k)
  then have k: "k < length ms" by simp
  with Suc have IH: "take (m_start (ms ! 0)) t @ concat (map (\<lambda>i. snd (spans_at t ms i)) [0..<k]) =
      take (m_start (ms ! k)) t" by simp
  have "take (m_start (ms ! 0)) t @ concat (map (\<lambda>i. snd (spans_at t ms i)) [0..<Suc k]) =
      take (m_start (ms ! k)) t @ slice t (m_start (ms ! k)) (next_start t ms k)"
    using IH by (simp add: snd_spans_at)
  also have "\<dots> = take (next_start t ms k) t"
    by (rule take_append_slice) (rule start_le_next[OF o k])
  finally show ?case by (simp add: next_start_def)
qed

lemma segment_spans_nonempty:
  assumes "segment_spans t \<noteq> []"
  shows "finditer start_pattern t \<noteq> [] \<and>
         segment_spans t =
           map (spans_at t (finditer start_pattern t)) [0..<length (finditer start_pattern t)]"
  using assms by (auto simp: segment_spans_def Let_def split: if_splits)

lemma reassemble_Cons: "reassemble (x # xs) = fst x @ snd x @ reassemble xs"
  by (simp add: reassemble_def split_beta)

lemma reassemble_no_content:
  "list_all (\<lambda>span. fst span = []) xs \<Longrightarrow> reassemble xs = concat (map snd xs)"
  by (induction xs) (simp_all add: reassemble_Cons, simp add: reassemble_def)

lemma length_reassemble:
  "length (reassemble xs) = sum_list (map (\<lambda>span. length (fst span)) xs) + length (concat (map snd xs))"
  by (induction xs) (simp_all add: reassemble_Cons, simp add: reassemble_def)

lemma sum_list_lengths_zero:
  "sum_list (map (\<lambda>span. length (fst span)) xs) = 0 \<Longrightarrow> list_all (\<lambda>span. fst span = []) xs"
  by (induction xs) auto

text \<open>
  C8, as amended. For a flattened text with at least one anchor, the content span of
  the first anchor followed by the metadata spans of all anchors, in order, is the
  text. The content span of every later anchor is a suffix of the metadata span
  before it, so its characters are covered twice; content and metadata spans of all
  anchors, one after the other, give back the text exactly when every content span but
  the first is empty, as it is with one anchor.
\<close>

theorem segment_round_trip:
  assumes "segment_spans flat_text = spans" and "spans \<noteq> []"
  shows "fst (hd spans) @ concat (map snd spans) = flat_text \<and>
         (\<forall>i. 0 < i \<and> i < length spans \<longrightarrow> suffix (fst (spans ! i)) (snd (spans ! (i - 1)))) \<and>
         (reassemble spans = flat_text \<longleftrightarrow> list_all (\<lambda>span. fst span = []) (tl spans))"
proof -
  define ms where "ms = finditer start_pattern flat_text"
  have o: "in_order 0 (length flat_text) ms"
    unfolding ms_def by (rule finditer_in_order)
  from assms segment_spans_nonempty[of flat_text]
  have ne: "ms \<noteq> []" and sp: "spans = map (spans_at flat_text ms) [0..<length ms]"
    by (auto simp: ms_def)
  then have n: "0 < length ms" and len: "length spans = length ms" by auto
  have nth: "spans ! i = spans_at flat_text ms i" if "i < length ms" for i
    using that by (simp add: sp)
  have "hd spans = spans ! 0" using assms(2) by (simp add: hd_conv_nth)
  then have h: "fst (hd spans) = take (m_start (ms ! 0)) flat_text"
    using n by (simp add: nth fst_spans_at slice_def)
  have "concat (map snd spans) = concat (map (\<lambda>i. snd (spans_at flat_text ms i)) [0..<length ms])"
    by (simp add: sp comp_def)
  with h metadata_pieces[OF o order_refl ne]
  have 1: "fst (hd spans) @ concat (map snd spans) = flat_text" by simp
  have 2: "suffix (fst (spans ! i)) (snd (spans ! (i - 1)))" if i: "0 < i" "i < length spans" for i
  proof -
    from i len have i': "i < length ms" "i - 1 < length ms" "Suc (i - 1) < length ms" by auto
    have f: "fst (spans ! i) = drop (m_end (ms ! (i - 1))) (take (m_start (ms ! i)) flat_text)"
      using i i' by (simp add: nth fst_spans_at slice_def)
    have s: "snd (spans ! (i - 1)) = drop (m_start (ms ! (i - 1))) (take (m_start (ms ! i)) flat_text)"
      using i i' by (simp add: nth snd_spans_at next_start_def slice_def)
    from in_order_nth(2)[OF o i'(2)] obtain d where "m_end (ms ! (i - 1)) = m_start (ms ! (i - 1)) + d"
      by (auto simp: le_iff_add)
    then have "fst (spans ! i) = drop d (snd (spans ! (i - 1)))"
      unfolding f s by (simp add: add.commute)
    then show ?thesis by (simp add: suffix_drop)
  qed
  obtain x xs where xs: "spans = x # xs" using assms(2) by (cases spans) auto
  have 3: "reassemble spans = flat_text \<longleftrightarrow> list_all (\<lambda>span. fst span = []) (tl spans)"
  proof
    assume "list_all (\<lambda>span. fst span = []) (tl spans)"
    then have "reassemble xs = concat (map snd xs)"
      using xs by (simp add: reassemble_no_content)
    with 1 xs show "reassemble spans = flat_text" by (simp add: reassemble_Cons)
  next
    assume "reassemble spans = flat_text"
    then have "length (reassemble spans) = length (fst (hd spans) @ concat (map snd spans))"
      using 1 by simp
    then have "sum_list (map (\<lambda>span. length (fst span)) xs) = 0"
      using xs by (simp add: reassemble_Cons length_reassemble)
    then show "list_all (\<lambda>span. fst span = []) (tl spans)"
      using xs by (simp add: sum_list_lengths_zero)
  qed
  from 1 2 3 show ?thesis by blast
qed

theorem segment_round_trip_witness:
  "segment_spans ''Question Type : MCQ Question ID : 1 Status : Answered Chosen Option : A Question Type : NAT Question ID : 2 Status : Not Answered'' =
     [([], ''Question Type : MCQ Question ID : 1 Status : Answered Chosen Option : A ''),
      ('' Chosen Option : A '', ''Question Type : NAT Question ID : 2 Status : Not Answered'')] \<and>
   fst (hd [([], ''Question Type : MCQ Question ID : 1 Status : Answered Chosen Option : A ''),
      ('' Chosen Option : A '', ''Question Type : NAT Question ID : 2 Status : Not Answered'')]) @
   concat (map snd [([], ''Question Type : MCQ Question ID : 1 Status : Answered Chosen Option : A ''),
      ('' Chosen Option : A '', ''Question Type : NAT Question ID : 2 Status : Not Answered'')]) =
     ''Question Type : MCQ Question ID : 1 Status : Answered Chosen Option : A Question Type : NAT Question ID : 2 Status : Not Answered'' \<and>
   suffix (fst ([([], ''Question Type : MCQ Question ID : 1 Status : Answered Chosen Option : A ''),
      ('' Chosen Option : A '', ''Question Type : NAT Question ID : 2 Status : Not Answered'')] ! 1))
     (snd ([([], ''Question Type : MCQ Question ID : 1 Status : Answered Chosen Option : A ''),
      ('' Chosen Option : A '', ''Question Type : NAT Question ID : 2 Status : Not Answered'')] ! 0))"
proof -
  let ?t = "''Question Type : MCQ Question ID : 1 Status : Answered Chosen Option : A Question Type : NAT Question ID : 2 Status : Not Answered''"
  let ?sp = "[([], ''Question Type : MCQ Question ID : 1 Status : Answered Chosen Option : A ''),
      ('' Chosen Option : A '', ''Question Type : NAT Question ID : 2 Status : Not Answered'')]"
  have e: "segment_spans ?t = ?sp" by code_simp
  have ne: "?sp \<noteq> []" by simp
  from segment_round_trip[OF e ne]
  have "fst (hd ?sp) @ concat (map snd ?sp) = ?t" and
    "0 < (1::nat) \<and> 1 < length ?sp \<longrightarrow> suffix (fst (?sp ! 1)) (snd (?sp ! (1 - 1)))"
    by blast+
  then have "fst (hd ?sp) @ concat (map snd ?sp) = ?t \<and> suffix (fst (?sp ! 1)) (snd (?sp ! 0))"
    by simp
  with e show ?thesis by blast
qed

theorem segment_round_trip_counterexample:
  "segment_spans ''Question Type : MCQ Question ID : 1 Status : Answered Chosen Option : A Question Type : NAT Question ID : 2 Status : Not Answered'' =
     [([], ''Question Type : MCQ Question ID : 1 Status : Answered Chosen Option : A ''),
      ('' Chosen Option : A '', ''Question Type : NAT Question ID : 2 Status : Not Answered'')] \<and>
   reassemble (segment_spans ''Question Type : MCQ Question ID : 1 Status : Answered Chosen Option : A Question Type : NAT Question ID : 2 Status : Not Answered'') =
     ''Question Type : MCQ Question ID : 1 Status : Answered Chosen Option : A  Chosen Option : A Question Type : NAT Question ID : 2 Status : Not Answered'' \<and>
   reassemble (segment_spans ''Question Type : MCQ Question ID : 1 Status : Answered Chosen Option : A Question Type : NAT Question ID : 2 Status : Not Answered'') \<noteq>
     ''Question Type : MCQ Question ID : 1 Status : Answered Chosen Option : A Question Type : NAT Question ID : 2 Status : Not Answered''"
proof -
  have e: "segment_spans ''Question Type : MCQ Question ID : 1 Status : Answered Chosen Option : A Question Type : NAT Question ID : 2 Status : Not Answered'' =
     [([], ''Question Type : MCQ Question ID : 1 Status : Answered Chosen Option : A ''),
      ('' Chosen Option : A '', ''Question Type : NAT Question ID : 2 Status : Not Answered'')]"
    by code_simp
  show ?thesis unfolding e by (simp add: reassemble_def)
qed

section \<open>Properties of the scoring engine\<close>

lemma evaluate_short:
  "length rs < length key \<Longrightarrow> evaluate f key ms rs = Inl (ValueError (length rs) (length key))"
  by (simp add: evaluate_def)

lemma evaluate_rows:
  "length key \<le> length rs \<Longrightarrow>
   evaluate f key ms rs =
     Inr (map (\<lambda>i. score_row f ms (key ! i) (sort_key question_id rs ! i)) [0..<length key])"
  by (auto simp: evaluate_def Let_def intro!: nth_equalityI simp: nth_enumerate_eq)

lemma evaluate_nth:
  assumes "evaluate f key ms rs = Inr rows" and "i < length key"
  shows "rows ! i = score_row f ms (key ! i) (sort_key question_id rs ! i)"
proof -
  have "length key \<le> length rs"
    using assms(1) by (auto simp: evaluate_def Let_def split: if_splits)
  from evaluate_rows[OF this, of f ms] assms show ?thesis by auto
qed

text \<open>
  C5. \<open>evaluate\<close> fails exactly when there are fewer response records than answer-key
  entries, and then with the error that names both counts. When it does not fail it
  returns one row for each key entry, the \<open>i\<close>-th row carrying the number, type and
  key of the \<open>i\<close>-th entry.
\<close>

theorem evaluate_fails_iff_too_few_responses:
  "((\<exists>e. evaluate f key ms rs = Inl e) \<longleftrightarrow> length rs < length key) \<and>
   (length rs < length key \<longrightarrow>
      evaluate f key ms rs = Inl (ValueError (length rs) (length key))) \<and>
   (\<not> length rs < length key \<longrightarrow>
      (\<exists>rows. evaluate f key ms rs = Inr rows \<and> length rows = length key \<and>
         (\<forall>i < length key.
            row_q_no (rows ! i) = q_no (key ! i) \<and>
            row_q_type (rows ! i) = q_type (key ! i) \<and>
            correct_answer (rows ! i) = key_raw (key ! i))))"
proof (cases "length rs < length key")
  case True
  then show ?thesis by (simp add: evaluate_short)
next
  case False
  then have le: "length key \<le> length rs" by simp
  show ?thesis
    using False by (simp add: evaluate_rows[OF le] score_row_def Let_def)
qed

theorem evaluate_fails_iff_too_few_responses_witness:
  "evaluate no_floats
     [\<lparr>q_no = 1, q_type = ''MCQ'', section' = ''GA'', key_raw = ''B''\<rparr>] [(1, 1)] []
     = Inl (ValueError 0 1) \<and>
   (\<exists>rows. evaluate no_floats
       [\<lparr>q_no = 1, q_type = ''MCQ'', section' = ''GA'', key_raw = ''B''\<rparr>] [(1, 1)]
       [\<lparr>question_id = 7, rq_type = ''MCQ'', status = ''Not Answered'', chosen_labels = [],
         given_answer = None, option_map = Map.empty\<rparr>] = Inr rows \<and>
      length rows = 1 \<and> row_q_no (rows ! 0) = 1 \<and> correct_answer (rows ! 0) = ''B'')"
  using
    evaluate_fails_iff_too_few_responses[of no_floats
      "[\<lparr>q_no = 1, q_type = ''MCQ'', section' = ''GA'', key_raw = ''B''\<rparr>]" "[(1, 1)]" "[]"]
    evaluate_fails_iff_too_few_responses[of no_floats
      "[\<lparr>q_no = 1, q_type = ''MCQ'', section' = ''GA'', key_raw = ''B''\<rparr>]" "[(1, 1)]"
      "[\<lparr>question_id = 7, rq_type = ''MCQ'', status = ''Not Answered'', chosen_labels = [],
         given_answer = None, option_map = Map.empty\<rparr>]"]
  by auto

lemma search_from_match:
  "search_from r p s = Some m \<Longrightarrow> \<exists>t s'. suffix t s \<and> match_here r t = Some (s', m_groups m)"
proof (induction r p s rule: search_from.induct)
  case (1 r p s)
  show ?case
  proof (cases "match_here r s")
    case (Some a)
    with "1.prems" show ?thesis
      by (cases a) (auto simp del: search_from.simps simp add: search_from.simps[of r p s])
  next
    case None
    with "1.prems" obtain c cs where s: "s = c # cs" and "search_from r (Suc p) cs = Some m"
      by (auto simp del: search_from.simps simp add: search_from.simps[of r p s] split: list.splits)
    with "1.IH"[OF None s] obtain t s' where "suffix t cs" "match_here r t = Some (s', m_groups m)"
      by blast
    then show ?thesis using s by (auto intro: suffix_ConsI)
  qed
qed

lemma master_pattern_group:
  assumes "match_here master_pattern t = Some (s', g)"
  shows "\<exists>c. c \<in> set ''abcdABCD'' \<and> g 1 = Some [c]"
proof -
  define R where "R = Seq (lit ''.png'') (Seq (Alt (lit ''?'') Eos) Eps)"
  have G: "grps R = {}" by (simp add: R_def lit_def)
  have mp: "master_pattern = Seq (Grp 1 (Sym (\<lambda>c. c \<in> set ''abcdABCD''))) R"
    by (simp add: master_pattern_def seqs_def R_def)
  let ?K = "\<lambda>s' g. Some (s', g)"
  from assms obtain c cs where t: "t = c # cs" and c: "c \<in> set ''abcdABCD''"
    and r: "rmatch R cs [1 \<mapsto> [c]] ?K = Some (s', g)"
    unfolding match_here_def mp by (cases t) (auto split: if_splits)
  from rmatch_reaches[OF r] G have "g 1 = Some [c]"
    by (auto simp: reaches_def)
  with c show ?thesis by blast
qed

lemma upper_char_abcd:
  assumes "c \<in> set ''abcdABCD''"
  shows "upper_char c \<in> set ''ABCD''"
proof -
  from assms consider "c = CHR ''a''" | "c = CHR ''b''" | "c = CHR ''c''" | "c = CHR ''d''"
    | "c = CHR ''A''" | "c = CHR ''B''" | "c = CHR ''C''" | "c = CHR ''D''"
    by auto
  then show ?thesis by cases (simp_all add: upper_char_def)
qed

lemma label_to_master_option_letter:
  assumes "label_to_master_option om label = Some letter"
  shows "\<exists>c. c \<in> set ''ABCD'' \<and> letter = [c]"
proof -
  from assms obtain url m where "search master_pattern url = Some m" and l: "letter = upper (group m 1)"
    by (auto simp: label_to_master_option_def split: option.splits)
  then obtain t s' where "match_here master_pattern t = Some (s', m_groups m)"
    unfolding search_def by (blast dest: search_from_match)
  from master_pattern_group[OF this] obtain c where c: "c \<in> set ''abcdABCD''" "m_groups m 1 = Some [c]"
    by blast
  from c(2) l have "letter = [upper_char c]" by (simp add: group_def upper_def)
  with upper_char_abcd[OF c(1)] show ?thesis by blast
qed

lemma label_to_master_option_truthy:
  "label_to_master_option om label = Some letter \<Longrightarrow> truthy (Some letter)"
  by (drule label_to_master_option_letter) (auto simp: truthy_def)



lemma valid_mark_table_get:
  assumes "valid_mark_table ms"
  shows "(case map_of ms q of None \<Rightarrow> 1 | Some v \<Rightarrow> v) \<in> {1, 2 :: real}"
proof (cases "map_of ms q")
  case None
  then show ?thesis by simp
next
  case (Some v)
  then have "(q, v) \<in> set ms" by (rule map_of_SomeD)
  with assms have "v = 1 \<or> v = 2" by (auto simp: valid_mark_table_def list_all_iff)
  with Some show ?thesis by auto
qed

lemma max_marks_score_row:
  "max_marks (score_row f ms k r) = (case map_of ms (q_no k) of None \<Rightarrow> 1 | Some v \<Rightarrow> v)"
  by (simp add: score_row_def Let_def)

lemma marks_mcq:
  "q_type k = ''MCQ'' \<Longrightarrow>
   marks (score_row f ms k r) = snd (score_mcq k r (max_marks (score_row f ms k r))) \<and>
   student_answer (score_row f ms k r) = fst (score_mcq k r (max_marks (score_row f ms k r)))"
  by (simp add: score_row_def Let_def)

lemma marks_msq:
  "q_type k = ''MSQ'' \<Longrightarrow>
   marks (score_row f ms k r) = snd (score_msq k r (max_marks (score_row f ms k r))) \<and>
   student_answer (score_row f ms k r) = fst (score_msq k r (max_marks (score_row f ms k r)))"
  by (simp add: score_row_def Let_def)

lemma marks_nat:
  "q_type k = ''NAT'' \<Longrightarrow>
   marks (score_row f ms k r) = snd (score_nat f k r (max_marks (score_row f ms k r))) \<and>
   student_answer (score_row f ms k r) = fst (score_nat f k r (max_marks (score_row f ms k r)))"
  by (simp add: score_row_def Let_def)

lemma marks_other:
  "q_type k \<noteq> ''MCQ'' \<Longrightarrow> q_type k \<noteq> ''MSQ'' \<Longrightarrow> q_type k \<noteq> ''NAT'' \<Longrightarrow>
   marks (score_row f ms k r) = 0 \<and> student_answer (score_row f ms k r) = ''--''"
  by (simp add: score_row_def Let_def)

text \<open>
  C2. An MCQ key entry, paired with the response at its index: when a label was chosen
  and the first chosen label resolves through the option map to a canonical letter,
  the marks are \<open>max_marks\<close> if that letter is \<open>key_raw\<close> and \<open>-max_marks/3\<close> if it is
  not; when no label was chosen or the first one does not resolve, the marks are 0 and
  the student answer shown is \<open>--\<close>.
\<close>

theorem mcq_marks:
  assumes "evaluate f key ms rs = Inr rows" and "i < length key"
    and "q_type (key ! i) = ''MCQ''"
    and "response = sort_key question_id rs ! i"
  shows "(\<forall>label rest letter.
            chosen_labels response = label # rest \<and>
            label_to_master_option (option_map response) label = Some letter \<longrightarrow>
            marks (rows ! i) =
              (if letter = key_raw (key ! i) then max_marks (rows ! i)
               else - (max_marks (rows ! i) / 3))) \<and>
         (chosen_labels response = [] \<or>
          label_to_master_option (option_map response) (hd (chosen_labels response)) = None \<longrightarrow>
            marks (rows ! i) = 0 \<and> student_answer (rows ! i) = ''--'')"
proof -
  have row: "rows ! i = score_row f ms (key ! i) response"
    using assms by (simp add: evaluate_nth)
  note m = marks_mcq[OF assms(3), of f ms response, folded row]
  show ?thesis
  proof (intro conjI allI impI)
    fix label rest letter
    assume a: "chosen_labels response = label # rest \<and>
      label_to_master_option (option_map response) label = Some letter"
    then have "truthy (Some letter)" by (blast intro: label_to_master_option_truthy)
    with a show "marks (rows ! i) =
      (if letter = key_raw (key ! i) then max_marks (rows ! i) else - (max_marks (rows ! i) / 3))"
      by (simp add: m score_mcq_def Let_def)
  next
    assume a: "chosen_labels response = [] \<or>
      label_to_master_option (option_map response) (hd (chosen_labels response)) = None"
    then show "marks (rows ! i) = 0"
      by (auto simp: m score_mcq_def Let_def truthy_def split: list.splits)
    from a show "student_answer (rows ! i) = ''--''"
      by (auto simp: m score_mcq_def Let_def truthy_def split: list.splits)
  qed
qed

theorem mcq_marks_witness:
  "evaluate no_floats
     [\<lparr>q_no = 1, q_type = ''MCQ'', section' = ''GA'', key_raw = ''B''\<rparr>] [(1, 1)]
     [\<lparr>question_id = 7, rq_type = ''MCQ'', status = ''Answered'', chosen_labels = [''A''],
       given_answer = None, option_map = [''A'' \<mapsto> ''https://cdn/q1_c.png'']\<rparr>]
   = Inr [\<lparr>row_q_no = 1, row_question_id = 7, row_q_type = ''MCQ'', row_status = ''Answered'',
       student_answer = ''C'', correct_answer = ''B'', marks = - (1 / 3), max_marks = 1\<rparr>] \<and>
   label_to_master_option [''A'' \<mapsto> ''https://cdn/q1_c.png''] ''A'' = Some ''C'' \<and>
   marks ([\<lparr>row_q_no = 1, row_question_id = 7, row_q_type = ''MCQ'', row_status = ''Answered'',
       student_answer = ''C'', correct_answer = ''B'', marks = - (1 / 3), max_marks = 1\<rparr>] ! 0) = - (1 / 3)"
proof -
  let ?key = "[\<lparr>q_no = 1, q_type = ''MCQ'', section' = ''GA'', key_raw = ''B''\<rparr>]"
  let ?r = "\<lparr>question_id = 7, rq_type = ''MCQ'', status = ''Answered'', chosen_labels = [''A''],
       given_answer = None, option_map = [''A'' \<mapsto> ''https://cdn/q1_c.png'']\<rparr>"
  let ?row = "\<lparr>row_q_no = 1, row_question_id = 7, row_q_type = ''MCQ'', row_status = ''Answered'',
       student_answer = ''C'', correct_answer = ''B'', marks = - (1 / 3), max_marks = 1\<rparr>"
  have ev: "evaluate no_floats ?key [(1, 1)] [?r] = Inr [?row]" by code_simp
  have lbl: "label_to_master_option (option_map ?r) ''A'' = Some ''C''" by code_simp
  have "marks ([?row] ! 0) = (if ''C'' = key_raw (?key ! 0) then max_marks ([?row] ! 0)
          else - (max_marks ([?row] ! 0) / 3))"
    using mcq_marks[OF ev, of 0 ?r] lbl by simp
  then have "marks ([?row] ! 0) = - (1 / 3)" by simp
  with ev lbl show ?thesis by simp
qed




section \<open>Properties of doubles and of the NAT rule\<close>

lemma ilog2_bounds:
  assumes "0 < a"
  shows "2 powi ilog2 a \<le> a \<and> a < 2 powi (ilog2 a + 1)"
proof (cases "1 \<le> a")
  case True
  define n where "n = \<lfloor>a\<rfloor>"
  have n: "0 < n" using True by (simp add: n_def)
  have il: "ilog2 a = bitlen n - 1" using True by (simp add: ilog2_def n_def)
  have b1: "1 \<le> bitlen n" using n by (simp add: bitlen_alt_def)
  from bitlen_bounds[OF n] have lo: "2 ^ nat (bitlen n - 1) \<le> n" and hi: "n < 2 ^ nat (bitlen n)"
    by auto
  have "real_of_int (2 ^ nat (bitlen n - 1)) \<le> real_of_int n" using lo by linarith
  also have "real_of_int n \<le> a" by (simp add: n_def)
  finally have 1: "(2::real) powi (bitlen n - 1) \<le> a"
    using b1 by (simp add: power_int_def)
  from hi have "n + 1 \<le> 2 ^ nat (bitlen n)" by simp
  then have "real_of_int (n + 1) \<le> real_of_int (2 ^ nat (bitlen n))" by linarith
  moreover have "a < real_of_int (n + 1)" unfolding n_def by linarith
  ultimately have 2: "a < (2::real) powi (bitlen n)"
    using b1 by (simp add: power_int_def)
  from 1 2 show ?thesis by (simp add: il)
next
  case False
  define m where "m = \<lceil>1 / a\<rceil>"
  define k where "k = bitlen (m - 1)"
  from False assms have b: "1 < 1 / a" by simp
  then have m: "2 \<le> m" unfolding m_def by linarith
  then have m1: "0 < m - 1" by simp
  have il: "ilog2 a = - k" using False by (simp add: ilog2_def m_def k_def)
  have k1: "1 \<le> k" using m1 by (simp add: k_def bitlen_alt_def)
  from bitlen_bounds[OF m1] have lo: "2 ^ nat (k - 1) \<le> m - 1" and hi: "m - 1 < 2 ^ nat k"
    by (auto simp: k_def)
  from hi have "m \<le> 2 ^ nat k" by simp
  then have "real_of_int m \<le> real_of_int (2 ^ nat k)" by (simp only: of_int_le_iff)
  then have "real_of_int m \<le> 2 ^ nat k" by simp
  moreover have "1 / a \<le> real_of_int m" unfolding m_def by linarith
  ultimately have "1 / a \<le> 2 ^ nat k" by linarith
  then have "1 \<le> a * 2 ^ nat k" using assms by (simp add: field_simps)
  then have 1: "(2::real) powi (- k) \<le> a"
    using k1 by (simp add: power_int_def field_simps)
  have "real_of_int (2 ^ nat (k - 1)) \<le> real_of_int (m - 1)" using lo by (simp only: of_int_le_iff)
  then have "2 ^ nat (k - 1) \<le> real_of_int (m - 1)" by simp
  moreover have "real_of_int (m - 1) < 1 / a" unfolding m_def by linarith
  ultimately have "2 ^ nat (k - 1) < 1 / a" by linarith
  then have "a * 2 ^ nat (k - 1) < 1" using assms by (simp add: field_simps)
  then have 2: "a < (2::real) powi (- k + 1)"
    using k1 by (cases "k = 1") (simp_all add: power_int_def field_simps nat_diff_distrib)
  from 1 2 show ?thesis by (simp add: il)
qed

lemma round_half_even_near: "\<bar>of_int (round_half_even q) - q\<bar> \<le> 1 / 2"
  unfolding round_half_even_def Let_def by (auto split: if_splits)

lemma round_to_double_near:
  assumes "round_to_double x = Finite y" and "x \<noteq> 0"
  shows "\<bar>y - x\<bar> \<le> 2 powi (max (ilog2 \<bar>x\<bar>) (- 1022) - 52) / 2"
proof -
  define e where "e = max (ilog2 \<bar>x\<bar>) (- 1022) - 52"
  have p: "(0::real) < 2 powi e" by simp
  from assms have y: "y = of_int (round_half_even (x / 2 powi e)) * 2 powi e"
    by (auto simp: round_to_double_def Let_def e_def split: if_splits)
  have "y - x = (of_int (round_half_even (x / 2 powi e)) - x / 2 powi e) * 2 powi e"
    using p by (simp add: y field_simps)
  then have "\<bar>y - x\<bar> = \<bar>of_int (round_half_even (x / 2 powi e)) - x / 2 powi e\<bar> * 2 powi e"
    using p by (simp add: abs_mult)
  also have "\<dots> \<le> (1 / 2) * 2 powi e"
    by (rule mult_right_mono[OF round_half_even_near]) simp
  finally show ?thesis by (simp add: e_def)
qed

text \<open>How a rounding is computed by hand: the binade of \<open>x\<close>, the spacing \<open>2^e\<close> of the doubles
  in it, and the multiple of the spacing nearest to \<open>x\<close>.\<close>

lemma ilog2_unique:
  assumes "2 powi L \<le> a" and "a < 2 powi (L + 1)"
  shows "ilog2 a = L"
proof -
  have "(0::real) < 2 powi L" by simp
  with assms(1) have a: "0 < a" by linarith
  from ilog2_bounds[OF a] have b: "2 powi ilog2 a \<le> a" "a < 2 powi (ilog2 a + 1)" by auto
  have "\<not> ilog2 a < L"
  proof
    assume "ilog2 a < L"
    then have "(2::real) powi (ilog2 a + 1) \<le> 2 powi L" by (intro power_int_increasing) auto
    with b(2) assms(1) show False by linarith
  qed
  moreover have "\<not> L < ilog2 a"
  proof
    assume "L < ilog2 a"
    then have "(2::real) powi (L + 1) \<le> 2 powi ilog2 a" by (intro power_int_increasing) auto
    with b(1) assms(2) show False by linarith
  qed
  ultimately show ?thesis by linarith
qed

lemma round_half_even_eqI: "\<bar>of_int n - q\<bar> < 1 / 2 \<Longrightarrow> round_half_even q = n"
proof -
  assume h: "\<bar>of_int n - q\<bar> < 1 / 2"
  show ?thesis
  proof (cases "of_int n \<le> q")
    case True
    with h have "\<lfloor>q\<rfloor> = n" by (intro floor_unique) linarith+
    with h True show ?thesis by (simp add: round_half_even_def Let_def)
  next
    case False
    with h have "\<lfloor>q\<rfloor> = n - 1" by (intro floor_unique; simp; linarith)
    with h False show ?thesis by (simp add: round_half_even_def Let_def)
  qed
qed

lemma round_to_double_eqI:
  assumes "2 powi L \<le> \<bar>x\<bar>" and "\<bar>x\<bar> < 2 powi (L + 1)"
    and "e = max L (- 1022) - 52"
    and "\<bar>of_int n - x / 2 powi e\<bar> < 1 / 2"
    and "\<bar>of_int n * 2 powi e\<bar> < (2::real) ^ 1024" and "n \<noteq> 0"
  shows "round_to_double x = Finite (of_int n * 2 powi e)"
proof -
  have "(0::real) < 2 powi L" by simp
  with assms(1) have "0 < \<bar>x\<bar>" by linarith
  then have x: "x \<noteq> 0" by simp
  have l: "ilog2 \<bar>x\<bar> = L" using assms(1,2) by (rule ilog2_unique)
  have r: "round_half_even (x / 2 powi e) = n" using assms(4) by (rule round_half_even_eqI)
  show ?thesis
    using x assms(5,6) by (simp add: round_to_double_def Let_def l r assms(3)[symmetric])
qed

text \<open>The doubles of the examples.\<close>

lemma double_1e_9: "round_to_double (1 / 10 ^ 9) = Finite (4835703278458517 / 4835703278458516698824704)"
  using round_to_double_eqI[of "- 30" "1 / 10 ^ 9" "- 82" "4835703278458517"]
  by (simp add: power_int_def power_divide)

lemma double_10: "double_of_str ''10'' = Finite (10)"
proof -
  have d: "decimal_value ''10'' = 10"
    by (simp add: decimal_value_def int_of_digits_def digit_val_def is_digit_def)
  show ?thesis
    using round_to_double_eqI[of "3" "10" "- 49" "5629499534213120"]
    by (simp add: double_of_str_def d power_int_def power_divide)
qed

lemma double_10_5: "double_of_str ''10.5'' = Finite (21 / 2)"
proof -
  have d: "decimal_value ''10.5'' = 21 / 2"
    by (simp add: decimal_value_def int_of_digits_def digit_val_def is_digit_def)
  show ?thesis
    using round_to_double_eqI[of "3" "21 / 2" "- 49" "5910974510923776"]
    by (simp add: double_of_str_def d power_int_def power_divide)
qed

lemma double_answer_10_5: "double_of_str ''10.5000000005'' = Finite (5910974511205251 / 562949953421312)"
proof -
  have d: "decimal_value ''10.5000000005'' = 21000000001 / 2000000000"
    by (simp add: decimal_value_def int_of_digits_def digit_val_def is_digit_def)
  show ?thesis
    using round_to_double_eqI[of "3" "21000000001 / 2000000000" "- 49" "5910974511205251"]
    by (simp add: double_of_str_def d power_int_def power_divide)
qed

lemma double_0_5: "double_of_str ''0.5'' = Finite (1 / 2)"
proof -
  have d: "decimal_value ''0.5'' = 1 / 2"
    by (simp add: decimal_value_def int_of_digits_def digit_val_def is_digit_def)
  show ?thesis
    using round_to_double_eqI[of "- 1" "1 / 2" "- 53" "4503599627370496"]
    by (simp add: double_of_str_def d power_int_def power_divide)
qed

lemma double_0_7: "double_of_str ''0.7'' = Finite (3152519739159347 / 4503599627370496)"
proof -
  have d: "decimal_value ''0.7'' = 7 / 10"
    by (simp add: decimal_value_def int_of_digits_def digit_val_def is_digit_def)
  show ?thesis
    using round_to_double_eqI[of "- 1" "7 / 10" "- 53" "6305039478318694"]
    by (simp add: double_of_str_def d power_int_def power_divide)
qed

lemma double_answer_0_7: "double_of_str ''0.700000001'' = Finite (3152519743662947 / 4503599627370496)"
proof -
  have d: "decimal_value ''0.700000001'' = 700000001 / 1000000000"
    by (simp add: decimal_value_def int_of_digits_def digit_val_def is_digit_def)
  show ?thesis
    using round_to_double_eqI[of "- 1" "700000001 / 1000000000" "- 53" "6305039487325894"]
    by (simp add: double_of_str_def d power_int_def power_divide)
qed

lemma double_0_1: "double_of_str ''0.1'' = Finite (3602879701896397 / 36028797018963968)"
proof -
  have d: "decimal_value ''0.1'' = 1 / 10"
    by (simp add: decimal_value_def int_of_digits_def digit_val_def is_digit_def)
  show ?thesis
    using round_to_double_eqI[of "- 4" "1 / 10" "- 56" "7205759403792794"]
    by (simp add: double_of_str_def d power_int_def power_divide)
qed

lemma double_0_3: "double_of_str ''0.3'' = Finite (5404319552844595 / 18014398509481984)"
proof -
  have d: "decimal_value ''0.3'' = 3 / 10"
    by (simp add: decimal_value_def int_of_digits_def digit_val_def is_digit_def)
  show ?thesis
    using round_to_double_eqI[of "- 2" "3 / 10" "- 54" "5404319552844595"]
    by (simp add: double_of_str_def d power_int_def power_divide)
qed

lemma double_answer_0_3: "double_of_str ''0.300000001'' = Finite (2702159785429497 / 9007199254740992)"
proof -
  have d: "decimal_value ''0.300000001'' = 300000001 / 1000000000"
    by (simp add: decimal_value_def int_of_digits_def digit_val_def is_digit_def)
  show ?thesis
    using round_to_double_eqI[of "- 2" "300000001 / 1000000000" "- 54" "5404319570858994"]
    by (simp add: double_of_str_def d power_int_def power_divide)
qed

lemma double_10_minus: "double_sub (Finite (10)) (Finite (4835703278458517 / 4835703278458516698824704)) = Finite (2814749766825085 / 281474976710656)"
  using round_to_double_eqI[of "3" "10 + - (4835703278458517 / 4835703278458516698824704)" "- 49" "5629499533650170"]
  by (simp add: double_sub_def power_int_def power_divide)

lemma double_10_5_plus: "double_add (Finite (21 / 2)) (Finite (4835703278458517 / 4835703278458516698824704)) = Finite (2955487255743363 / 281474976710656)"
  using round_to_double_eqI[of "3" "21 / 2 + 4835703278458517 / 4835703278458516698824704" "- 49" "5910974511486726"]
  by (simp add: double_sub_def power_int_def power_divide)

lemma double_0_5_minus: "double_sub (Finite (1 / 2)) (Finite (4835703278458517 / 4835703278458516698824704)) = Finite (9007199236726593 / 18014398509481984)"
  using round_to_double_eqI[of "- 2" "1 / 2 + - (4835703278458517 / 4835703278458516698824704)" "- 54" "9007199236726593"]
  by (simp add: double_sub_def power_int_def power_divide)

lemma double_0_7_plus: "double_add (Finite (3152519739159347 / 4503599627370496)) (Finite (4835703278458517 / 4835703278458516698824704)) = Finite (6305039487325893 / 9007199254740992)"
  using round_to_double_eqI[of "- 1" "3152519739159347 / 4503599627370496 + 4835703278458517 / 4835703278458516698824704" "- 53" "6305039487325893"]
  by (simp add: double_sub_def power_int_def power_divide)

lemma double_0_1_minus: "double_sub (Finite (3602879701896397 / 36028797018963968)) (Finite (4835703278458517 / 4835703278458516698824704)) = Finite (225179979116725 / 2251799813685248)"
  using round_to_double_eqI[of "- 4" "3602879701896397 / 36028797018963968 + - (4835703278458517 / 4835703278458516698824704)" "- 56" "7205759331735200"]
  by (simp add: double_sub_def power_int_def power_divide)

lemma double_0_3_plus: "double_add (Finite (5404319552844595 / 18014398509481984)) (Finite (4835703278458517 / 4835703278458516698824704)) = Finite (2702159785429497 / 9007199254740992)"
  using round_to_double_eqI[of "- 2" "5404319552844595 / 18014398509481984 + 4835703278458517 / 4835703278458516698824704" "- 54" "5404319570858994"]
  by (simp add: double_sub_def power_int_def power_divide)

lemma parse_10_to_10_5:
  "parse_nat_range f ''10 to 10.5'' = (Some (float_of_str f ''10''), Some (float_of_str f ''10.5''))"
proof -
  have "map_option (\<lambda>m. (group m 1, group m 2)) (search nat_range_pattern ''10 to 10.5'')
      = Some (''10'', ''10.5'')"
    by code_simp
  then show ?thesis by (auto simp: parse_nat_range_def)
qed

lemma parse_0_5_to_0_7:
  "parse_nat_range f ''0.5 to 0.7'' = (Some (float_of_str f ''0.5''), Some (float_of_str f ''0.7''))"
proof -
  have "map_option (\<lambda>m. (group m 1, group m 2)) (search nat_range_pattern ''0.5 to 0.7'')
      = Some (''0.5'', ''0.7'')"
    by code_simp
  then show ?thesis by (auto simp: parse_nat_range_def)
qed

lemma parse_0_1_to_0_3:
  "parse_nat_range f ''0.1 to 0.3'' = (Some (float_of_str f ''0.1''), Some (float_of_str f ''0.3''))"
proof -
  have "map_option (\<lambda>m. (group m 1, group m 2)) (search nat_range_pattern ''0.1 to 0.3'')
      = Some (''0.1'', ''0.3'')"
    by code_simp
  then show ?thesis by (auto simp: parse_nat_range_def)
qed

lemma nat_marks_any_floats:
  assumes "evaluate f key ms rs = Inr rows" and "i < length key"
    and "q_type (key ! i) = ''NAT''"
    and "response = sort_key question_id rs ! i"
    and "valid_mark_table ms"
  shows "(\<forall>lo hi. parse_nat_range f (key_raw (key ! i)) = (Some lo, Some hi) \<longrightarrow>
            (marks (rows ! i) = max_marks (rows ! i) \<longleftrightarrow>
               (\<exists>answer. given_answer response = Some answer \<and>
                  float_le f (float_sub f lo (float_1e_9 f)) answer \<and>
                  float_le f answer (float_add f hi (float_1e_9 f))))) \<and>
         (marks (rows ! i) \<noteq> max_marks (rows ! i) \<longrightarrow> marks (rows ! i) = 0) \<and>
         (given_answer response = None \<longrightarrow> marks (rows ! i) = 0) \<and>
         (parse_nat_range f (key_raw (key ! i)) = (None, None) \<longrightarrow> marks (rows ! i) = 0) \<and>
         0 \<le> marks (rows ! i)"
proof -
  have row: "rows ! i = score_row f ms (key ! i) response"
    using assms by (simp add: evaluate_nth)
  note m = marks_nat[OF assms(3), of f ms response, folded row]
  have "max_marks (rows ! i) \<in> {1, 2}"
    unfolding row max_marks_score_row by (rule valid_mark_table_get[OF assms(5)])
  then have pos: "0 < max_marks (rows ! i)" by auto
  show ?thesis
    using pos by (auto simp: m score_nat_def split: prod.splits option.splits)
qed

text \<open>
  C4, as amended. A NAT key entry, for a mark table in which every value is 1.0 or 2.0,
  with floats as doubles: when \<open>key_raw\<close> parses as a range from \<open>lo\<close> to \<open>hi\<close>, the
  marks are \<open>max_marks\<close> if and only if an answer was given and
  \<open>lo - 1e-9 <= answer <= hi + 1e-9\<close> holds in double arithmetic, that is with \<open>lo\<close>,
  \<open>hi\<close>, the answer and \<open>1e-9\<close> the nearest doubles and with the difference and the sum
  rounded to the nearest double. In every other case, also with no answer or a key
  that does not parse, the marks are 0, and they are never negative.
\<close>

theorem nat_marks:
  assumes "evaluate (ieee_double str) key ms rs = Inr rows" and "i < length key"
    and "q_type (key ! i) = ''NAT''"
    and "response = sort_key question_id rs ! i"
    and "valid_mark_table ms"
  shows "(\<forall>lo hi. parse_nat_range (ieee_double str) (key_raw (key ! i)) = (Some lo, Some hi) \<longrightarrow>
            (marks (rows ! i) = max_marks (rows ! i) \<longleftrightarrow>
               (\<exists>answer. given_answer response = Some answer \<and>
                  double_le (double_sub lo (round_to_double (1 / 10 ^ 9))) answer \<and>
                  double_le answer (double_add hi (round_to_double (1 / 10 ^ 9)))))) \<and>
         (marks (rows ! i) \<noteq> max_marks (rows ! i) \<longrightarrow> marks (rows ! i) = 0) \<and>
         (given_answer response = None \<longrightarrow> marks (rows ! i) = 0) \<and>
         (parse_nat_range (ieee_double str) (key_raw (key ! i)) = (None, None) \<longrightarrow>
            marks (rows ! i) = 0) \<and>
         0 \<le> marks (rows ! i)"
  using nat_marks_any_floats[OF assms] by (simp add: ieee_double_def)

theorem nat_marks_witness:
  "\<forall>str.
     evaluate (ieee_double str)
       [\<lparr>q_no = 3, q_type = ''NAT'', section' = ''CS'', key_raw = ''10 to 10.5''\<rparr>] [(3, 2)]
       [\<lparr>question_id = 11, rq_type = ''NAT'', status = ''Answered'', chosen_labels = [],
         given_answer = Some (double_of_str ''10.5000000005''), option_map = Map.empty\<rparr>]
     = Inr [\<lparr>row_q_no = 3, row_question_id = 11, row_q_type = ''NAT'', row_status = ''Answered'',
         student_answer = str (double_of_str ''10.5000000005''), correct_answer = ''10 to 10.5'',
         marks = 2, max_marks = 2\<rparr>] \<and>
     valid_mark_table [(3, 2)] \<and>
     parse_nat_range (ieee_double str) ''10 to 10.5'' = (Some (Finite 10), Some (Finite (21 / 2))) \<and>
     double_le (double_sub (Finite 10) (round_to_double (1 / 10 ^ 9))) (double_of_str ''10.5000000005'') \<and>
     double_le (double_of_str ''10.5000000005'') (double_add (Finite (21 / 2)) (round_to_double (1 / 10 ^ 9)))"
  (is "\<forall>str. ?P str")
proof
  fix str
  let ?key = "[\<lparr>q_no = 3, q_type = ''NAT'', section' = ''CS'', key_raw = ''10 to 10.5''\<rparr>]"
  let ?r = "\<lparr>question_id = 11, rq_type = ''NAT'', status = ''Answered'', chosen_labels = [],
         given_answer = Some (double_of_str ''10.5000000005''), option_map = Map.empty\<rparr>"
  let ?row = "\<lparr>row_q_no = 3, row_question_id = 11, row_q_type = ''NAT'', row_status = ''Answered'',
         student_answer = str (double_of_str ''10.5000000005''), correct_answer = ''10 to 10.5'',
         marks = 2, max_marks = 2\<rparr>"
  have ev: "evaluate (ieee_double str) ?key [(3, 2)] [?r] = Inr [?row]"
    by (simp add: evaluate_def score_row_def score_nat_def Let_def ieee_double_def
          double_1e_9[simplified]
          parse_10_to_10_5 double_10 double_10_5 double_answer_10_5 double_10_minus double_10_5_plus
          del: double_add.simps)
  have v: "valid_mark_table [(3, 2)]" by (simp add: valid_mark_table_def)
  have p: "parse_nat_range (ieee_double str) (key_raw (?key ! 0))
      = (Some (Finite 10), Some (Finite (21 / 2)))"
    by (simp add: parse_10_to_10_5 ieee_double_def double_10 double_10_5)
  have "double_le (double_sub (Finite 10) (round_to_double (1 / 10 ^ 9))) (double_of_str ''10.5000000005'') \<and>
      double_le (double_of_str ''10.5000000005'') (double_add (Finite (21 / 2)) (round_to_double (1 / 10 ^ 9)))"
    using nat_marks[OF ev _ _ _ v, of 0 ?r] p by simp
  with ev v p show "?P str" by simp
qed

text \<open>
  Two answers for which the rule in double arithmetic and the exact interval differ.
  The answer written \<open>0.700000001\<close> is the upper end of the exact interval for the key
  \<open>0.5 to 0.7\<close> and gets 0 marks: the sum of the doubles \<open>0.7\<close> and \<open>1e-9\<close> rounds down,
  below the double of the answer. The double of \<open>0.300000001\<close> is greater than the
  double of \<open>0.3\<close> plus \<open>1e-9\<close>, be that the number or its double, and gets \<open>max_marks\<close>
  for the key \<open>0.1 to 0.3\<close>: here the sum rounds up, to the answer.
\<close>

theorem nat_marks_rounding_counterexample:
  "\<forall>str.
     evaluate (ieee_double str)
       [\<lparr>q_no = 3, q_type = ''NAT'', section' = ''CS'', key_raw = ''0.5 to 0.7''\<rparr>] [(3, 2)]
       [\<lparr>question_id = 11, rq_type = ''NAT'', status = ''Answered'', chosen_labels = [],
         given_answer = Some (double_of_str ''0.700000001''), option_map = Map.empty\<rparr>]
     = Inr [\<lparr>row_q_no = 3, row_question_id = 11, row_q_type = ''NAT'', row_status = ''Answered'',
         student_answer = str (double_of_str ''0.700000001''), correct_answer = ''0.5 to 0.7'',
         marks = 0, max_marks = 2\<rparr>] \<and>
     decimal_value ''0.5'' - 1 / 10 ^ 9 \<le> decimal_value ''0.700000001'' \<and>
     decimal_value ''0.700000001'' \<le> decimal_value ''0.7'' + 1 / 10 ^ 9 \<and>
     evaluate (ieee_double str)
       [\<lparr>q_no = 3, q_type = ''NAT'', section' = ''CS'', key_raw = ''0.1 to 0.3''\<rparr>] [(3, 2)]
       [\<lparr>question_id = 11, rq_type = ''NAT'', status = ''Answered'', chosen_labels = [],
         given_answer = Some (double_of_str ''0.300000001''), option_map = Map.empty\<rparr>]
     = Inr [\<lparr>row_q_no = 3, row_question_id = 11, row_q_type = ''NAT'', row_status = ''Answered'',
         student_answer = str (double_of_str ''0.300000001''), correct_answer = ''0.1 to 0.3'',
         marks = 2, max_marks = 2\<rparr>] \<and>
     double_of_str ''0.3'' = Finite (5404319552844595 / 18014398509481984) \<and>
     double_of_str ''0.300000001'' = Finite (2702159785429497 / 9007199254740992) \<and>
     round_to_double (1 / 10 ^ 9) = Finite (4835703278458517 / 4835703278458516698824704) \<and>
     (5404319552844595 / 18014398509481984 + 1 / 10 ^ 9 :: real) < 2702159785429497 / 9007199254740992 \<and>
     (5404319552844595 / 18014398509481984 + 4835703278458517 / 4835703278458516698824704 :: real)
       < 2702159785429497 / 9007199254740992"
  (is "\<forall>str. ?P str")
proof
  fix str
  have a: "evaluate (ieee_double str)
       [\<lparr>q_no = 3, q_type = ''NAT'', section' = ''CS'', key_raw = ''0.5 to 0.7''\<rparr>] [(3, 2)]
       [\<lparr>question_id = 11, rq_type = ''NAT'', status = ''Answered'', chosen_labels = [],
         given_answer = Some (double_of_str ''0.700000001''), option_map = Map.empty\<rparr>]
     = Inr [\<lparr>row_q_no = 3, row_question_id = 11, row_q_type = ''NAT'', row_status = ''Answered'',
         student_answer = str (double_of_str ''0.700000001''), correct_answer = ''0.5 to 0.7'',
         marks = 0, max_marks = 2\<rparr>]"
    by (simp add: evaluate_def score_row_def score_nat_def Let_def ieee_double_def
          double_1e_9[simplified]
          parse_0_5_to_0_7 double_0_5 double_0_7 double_answer_0_7 double_0_5_minus double_0_7_plus
          del: double_add.simps)
  have b: "decimal_value ''0.5'' - 1 / 10 ^ 9 \<le> decimal_value ''0.700000001'' \<and>
      decimal_value ''0.700000001'' \<le> decimal_value ''0.7'' + 1 / 10 ^ 9"
    by (simp add: decimal_value_def int_of_digits_def digit_val_def is_digit_def)
  have c: "evaluate (ieee_double str)
       [\<lparr>q_no = 3, q_type = ''NAT'', section' = ''CS'', key_raw = ''0.1 to 0.3''\<rparr>] [(3, 2)]
       [\<lparr>question_id = 11, rq_type = ''NAT'', status = ''Answered'', chosen_labels = [],
         given_answer = Some (double_of_str ''0.300000001''), option_map = Map.empty\<rparr>]
     = Inr [\<lparr>row_q_no = 3, row_question_id = 11, row_q_type = ''NAT'', row_status = ''Answered'',
         student_answer = str (double_of_str ''0.300000001''), correct_answer = ''0.1 to 0.3'',
         marks = 2, max_marks = 2\<rparr>]"
    by (simp add: evaluate_def score_row_def score_nat_def Let_def ieee_double_def
          double_1e_9[simplified]
          parse_0_1_to_0_3 double_0_1 double_0_3 double_answer_0_3 double_0_1_minus double_0_3_plus
          del: double_add.simps)
  have d: "(5404319552844595 / 18014398509481984 + 1 / 10 ^ 9 :: real) < 2702159785429497 / 9007199254740992"
    by simp
  have e: "(5404319552844595 / 18014398509481984 + 4835703278458517 / 4835703278458516698824704 :: real)
       < 2702159785429497 / 9007199254740992"
    by simp
  from a b c d e double_0_3 double_answer_0_3 double_1e_9 show "?P str" by blast
qed

text \<open>
  An unanswered question, of any type, gets 0 marks and the placeholder, provided that
  the reference set of an MSQ entry is not empty.
\<close>

lemma unanswered_scores_zero:
  assumes "evaluate f key ms rs = Inr rows" and "i < length key"
    and "response = sort_key question_id rs ! i"
    and "status response = ''Not Answered''"
    and "chosen_labels response = []" and "given_answer response = None"
    and "q_type (key ! i) = ''MSQ'' \<longrightarrow> correct_set (key_raw (key ! i)) \<noteq> {}"
  shows "marks (rows ! i) = 0 \<and> student_answer (rows ! i) = ''--''"
proof -
  have row: "rows ! i = score_row f ms (key ! i) response"
    using assms by (simp add: evaluate_nth)
  have ma: "mapped_answers response = {}"
    using assms(5) by (simp add: mapped_answers_def)
  show ?thesis
    unfolding row using assms(5,6,7) ma
    by (auto simp: score_row_def Let_def score_mcq_def score_msq_def score_nat_def
          split: prod.splits)
qed

text \<open>
  C9. For an MSQ entry whose \<open>key_raw\<close> has no item, a response with the status "Not
  Answered", no chosen label and no given answer gets \<open>max_marks\<close>, not 0: the empty set
  of answers equals the empty reference set. The same response paired with an MCQ or a
  NAT entry with the same key gets 0.
\<close>

theorem unanswered_msq_empty_key_full_marks:
  "evaluate no_floats
     [\<lparr>q_no = 4, q_type = ''MSQ'', section' = ''CS'', key_raw = ''''\<rparr>] [(4, 2)]
     [\<lparr>question_id = 13, rq_type = ''MSQ'', status = ''Not Answered'', chosen_labels = [],
       given_answer = None, option_map = Map.empty\<rparr>]
   = Inr [\<lparr>row_q_no = 4, row_question_id = 13, row_q_type = ''MSQ'', row_status = ''Not Answered'',
       student_answer = ''--'', correct_answer = '''', marks = 2, max_marks = 2\<rparr>] \<and>
   evaluate no_floats
     [\<lparr>q_no = 4, q_type = ''MCQ'', section' = ''CS'', key_raw = ''''\<rparr>] [(4, 2)]
     [\<lparr>question_id = 13, rq_type = ''MSQ'', status = ''Not Answered'', chosen_labels = [],
       given_answer = None, option_map = Map.empty\<rparr>]
   = Inr [\<lparr>row_q_no = 4, row_question_id = 13, row_q_type = ''MCQ'', row_status = ''Not Answered'',
       student_answer = ''--'', correct_answer = '''', marks = 0, max_marks = 2\<rparr>] \<and>
   evaluate no_floats
     [\<lparr>q_no = 4, q_type = ''NAT'', section' = ''CS'', key_raw = ''''\<rparr>] [(4, 2)]
     [\<lparr>question_id = 13, rq_type = ''MSQ'', status = ''Not Answered'', chosen_labels = [],
       given_answer = None, option_map = Map.empty\<rparr>]
   = Inr [\<lparr>row_q_no = 4, row_question_id = 13, row_q_type = ''NAT'', row_status = ''Not Answered'',
       student_answer = ''--'', correct_answer = '''', marks = 0, max_marks = 2\<rparr>]"
  by code_simp

text \<open>
  C10. For a mark table in which every value is 1.0 or 2.0, every row that \<open>evaluate\<close>
  returns has marks equal to \<open>max_marks\<close>, to 0 or to \<open>-max_marks/3\<close>, at most
  \<open>max_marks\<close>, and negative only if the row's type is MCQ.
\<close>

theorem marks_range:
  assumes "evaluate f key ms rs = Inr rows" and "i < length rows"
    and "valid_mark_table ms"
  shows "marks (rows ! i) \<in> {max_marks (rows ! i), 0, - (max_marks (rows ! i) / 3)} \<and>
         marks (rows ! i) \<le> max_marks (rows ! i) \<and>
         (marks (rows ! i) < 0 \<longrightarrow> row_q_type (rows ! i) = ''MCQ'')"
proof -
  have len: "length rows = length key"
    using assms(1) by (auto simp: evaluate_def Let_def split: if_splits)
  define response where "response = sort_key question_id rs ! i"
  have row: "rows ! i = score_row f ms (key ! i) response"
    using assms len by (simp add: evaluate_nth response_def)
  have "max_marks (rows ! i) \<in> {1, 2}"
    unfolding row max_marks_score_row by (rule valid_mark_table_get[OF assms(3)])
  then have pos: "0 < max_marks (rows ! i)" by auto
  have ty: "row_q_type (rows ! i) = q_type (key ! i)"
    by (simp add: row score_row_def Let_def)
  consider "q_type (key ! i) = ''MCQ''" | "q_type (key ! i) = ''MSQ''" | "q_type (key ! i) = ''NAT''"
    | "q_type (key ! i) \<noteq> ''MCQ''" "q_type (key ! i) \<noteq> ''MSQ''" "q_type (key ! i) \<noteq> ''NAT''"
    by blast
  then show ?thesis
  proof cases
    case 1
    note m = marks_mcq[OF 1, of f ms response, folded row]
    show ?thesis using pos ty 1
      by (auto simp: m score_mcq_def Let_def split: list.splits)
  next
    case 2
    note m = marks_msq[OF 2, of f ms response, folded row]
    show ?thesis using pos ty 2
      by (auto simp: m score_msq_def Let_def)
  next
    case 3
    note m = marks_nat[OF 3, of f ms response, folded row]
    show ?thesis using pos ty 3
      by (auto simp: m score_nat_def split: prod.splits option.splits)
  next
    case 4
    from marks_other[OF 4, of f ms response, folded row] show ?thesis using pos by simp
  qed
qed

theorem marks_range_witness:
  "evaluate no_floats
     [\<lparr>q_no = 1, q_type = ''MCQ'', section' = ''GA'', key_raw = ''B''\<rparr>]
     (parse_mark_scheme [Some ''Q.1 - Q.5 Carry ONE mark Each''] 5)
     [\<lparr>question_id = 7, rq_type = ''MCQ'', status = ''Answered'', chosen_labels = [''A''],
       given_answer = None, option_map = [''A'' \<mapsto> ''https://cdn/q1_c.png'']\<rparr>]
   = Inr [\<lparr>row_q_no = 1, row_question_id = 7, row_q_type = ''MCQ'', row_status = ''Answered'',
       student_answer = ''C'', correct_answer = ''B'', marks = - (1 / 3), max_marks = 1\<rparr>] \<and>
   valid_mark_table (parse_mark_scheme [Some ''Q.1 - Q.5 Carry ONE mark Each''] 5) \<and>
   marks ([\<lparr>row_q_no = 1, row_question_id = 7, row_q_type = ''MCQ'', row_status = ''Answered'',
       student_answer = ''C'', correct_answer = ''B'', marks = - (1 / 3), max_marks = 1\<rparr>] ! 0) \<le> max_marks ([\<lparr>row_q_no = 1, row_question_id = 7, row_q_type = ''MCQ'', row_status = ''Answered'',
       student_answer = ''C'', correct_answer = ''B'', marks = - (1 / 3), max_marks = 1\<rparr>] ! 0) \<and>
   row_q_type ([\<lparr>row_q_no = 1, row_question_id = 7, row_q_type = ''MCQ'', row_status = ''Answered'',
       student_answer = ''C'', correct_answer = ''B'', marks = - (1 / 3), max_marks = 1\<rparr>] ! 0) = ''MCQ''"
proof -
  let ?key = "[\<lparr>q_no = 1, q_type = ''MCQ'', section' = ''GA'', key_raw = ''B''\<rparr>]"
  let ?ms = "parse_mark_scheme [Some ''Q.1 - Q.5 Carry ONE mark Each''] 5"
  let ?r = "\<lparr>question_id = 7, rq_type = ''MCQ'', status = ''Answered'', chosen_labels = [''A''],
       given_answer = None, option_map = [''A'' \<mapsto> ''https://cdn/q1_c.png'']\<rparr>"
  let ?row = "\<lparr>row_q_no = 1, row_question_id = 7, row_q_type = ''MCQ'', row_status = ''Answered'',
       student_answer = ''C'', correct_answer = ''B'', marks = - (1 / 3), max_marks = 1\<rparr>"
  have ev: "evaluate no_floats ?key ?ms [?r] = Inr [?row]" by code_simp
  have v: "valid_mark_table ?ms" by (rule parse_mark_scheme_valid)
  have "marks ([?row] ! 0) \<le> max_marks ([?row] ! 0) \<and>
        (marks ([?row] ! 0) < 0 \<longrightarrow> row_q_type ([?row] ! 0) = ''MCQ'')"
    using marks_range[OF ev _ v, of 0] by simp
  then have "marks ([?row] ! 0) \<le> max_marks ([?row] ! 0) \<and> row_q_type ([?row] ! 0) = ''MCQ''"
    by simp
  with ev v show ?thesis by simp
qed

end
